theory Spec2Isabelle
  imports Main
begin

section \<open>The chart uploader of \<^verbatim>\<open>main.go\<close>\<close>

subsection \<open>Data\<close>

text \<open>
  The fields of helm's \<^verbatim>\<open>repo.ChartVersion\<close> that \<^verbatim>\<open>uploadChart\<close> reads.
\<close>

record ChartVersion =
  Name :: string
  Version :: string
  URLs :: "string list"
  Deprecated :: bool

text \<open>The struct \<^verbatim>\<open>AppRequest\<close> (lines 23-29).\<close>

record AppRequest =
  RepoName :: string
  Package :: string
  CategoryName :: string
  Workspace :: string
  AppType :: string

text \<open>
  The package-level variables (lines 42-47). Before the flags are parsed each one holds
  the zero value of its type.
\<close>

record globals =
  serverURL :: string
  token :: string
  repoURL :: string
  limit :: int

definition mark :: string where
  "mark = ''openpitrix-import''"

text \<open>
  The resty client: the headers set on it are sent with every request made from it
  through \<^verbatim>\<open>R()\<close>.
\<close>

record resty_Client =
  Header :: "string \<rightharpoonup> string"
  Timeout :: nat

definition resty_New :: resty_Client where
  "resty_New = \<lparr>Header = Map.empty, Timeout = 0\<rparr>"

definition SetHeader :: "string \<Rightarrow> string \<Rightarrow> resty_Client \<Rightarrow> resty_Client" where
  "SetHeader k v c = c\<lparr>Header := (Header c)(k \<mapsto> v)\<rparr>"

definition SetTimeout :: "nat \<Rightarrow> resty_Client \<Rightarrow> resty_Client" where
  "SetTimeout n c = c\<lparr>Timeout := n\<rparr>"

text \<open>
  What the program does to the outside world while uploading, in order: a GET with its
  URL and headers, a POST with its URL, headers and body, a pause in milliseconds.
\<close>

datatype event =
    Get string "string \<rightharpoonup> string"
  | Post string "string \<rightharpoonup> string" AppRequest
  | Sleep nat

record Response =
  StatusCode :: int
  Body :: string

datatype http_result = TransportError string | Resp Response

text \<open>resty's \<^verbatim>\<open>Response.IsError\<close>: a status code above 399.\<close>

definition IsError :: "Response \<Rightarrow> bool" where
  "IsError r \<longleftrightarrow> StatusCode r > 399"

text \<open>
  The network: the answer to the last request of a history of events, so a server may
  answer by everything it was sent before.
\<close>

type_synonym network = "event list \<Rightarrow> http_result"

text \<open>
  \<^verbatim>\<open>base64.StdEncoding.EncodeToString\<close>: three bytes give four characters of
  the standard alphabet, and the last group is padded with \<open>=\<close>.
\<close>

definition b64char :: "nat \<Rightarrow> char" where
  "b64char n =
     ''ABCDEFGHIJKLMNOPQRSTUVWXYZabcdefghijklmnopqrstuvwxyz0123456789+/'' ! (n mod 64)"

fun b64enc :: "nat list \<Rightarrow> string" where
  "b64enc [] = []"
| "b64enc [a] = [b64char (a div 4), b64char ((a mod 4) * 16), CHR ''='', CHR ''='']"
| "b64enc [a, b] =
     [b64char (a div 4), b64char ((a mod 4) * 16 + b div 16), b64char ((b mod 16) * 4),
      CHR ''='']"
| "b64enc (a # b # c # bs) =
     [b64char (a div 4), b64char ((a mod 4) * 16 + b div 16),
      b64char ((b mod 16) * 4 + c div 64), b64char (c mod 64)] @ b64enc bs"

definition EncodeToString :: "string \<Rightarrow> string" where
  "EncodeToString body = b64enc (map of_char body)"

text \<open>The variables of the loop over one package (lines 174-175) and the history.\<close>

record pkg_state =
  appID :: string
  success :: int
  trace :: "event list"

datatype panic = IndexOutOfRange | NilMapAssignment

datatype loop_ctl = LBreak pkg_state | LContinue pkg_state | LPanic panic

subsection \<open>The loop body (lines 178-232)\<close>

definition createURL :: "globals \<Rightarrow> string" where
  "createURL g = serverURL g @ ''/kapis/application.kubesphere.io/v2/apps''"

definition versionURL :: "globals \<Rightarrow> string \<Rightarrow> string" where
  "versionURL g i =
     serverURL g @ ''/kapis/application.kubesphere.io/v2/apps/'' @ i @ ''/versions''"

definition mkAppRequest :: "string \<Rightarrow> AppRequest" where
  "mkAppRequest body =
     \<lparr>RepoName = ''upload'', Package = EncodeToString body, CategoryName = mark,
      Workspace = '''', AppType = ''helm''\<rparr>"

text \<open>
  The upload half of the body (lines 196-232), after a download that answered with
  \<open>body\<close>. The decoded \<^verbatim>\<open>response.AppName\<close> is not read by the source, and
  \<^verbatim>\<open>appID\<close> is not assigned after line 174.
\<close>

definition postEntry :: "network \<Rightarrow> globals \<Rightarrow> resty_Client \<Rightarrow> string \<Rightarrow> pkg_state \<Rightarrow> loop_ctl" where
  "postEntry env g c body s =
     (let url = (if appID s = '''' then createURL g else versionURL g (appID s));
          s1 = s\<lparr>trace := trace s @ [Post url (Header c) (mkAppRequest body)]\<rparr>
      in case env (trace s1) of
           TransportError m \<Rightarrow> LContinue s1
         | Resp r \<Rightarrow>
             (if IsError r then LContinue s1
              else
                (let s2 = s1\<lparr>success := success s1 + 1\<rparr>
                 in if success s2 \<ge> limit g then LBreak s2
                    else LContinue (s2\<lparr>trace := trace s2 @ [Sleep 200]\<rparr>))))"

definition uploadEntry :: "network \<Rightarrow> globals \<Rightarrow> resty_Client \<Rightarrow> ChartVersion \<Rightarrow> pkg_state \<Rightarrow> loop_ctl" where
  "uploadEntry env g c e s =
     (if Deprecated e then LBreak s
      else case URLs e of
        [] \<Rightarrow> LPanic IndexOutOfRange
      | u # us \<Rightarrow>
          (let s1 = s\<lparr>trace := trace s @ [Get u (Header c)]\<rparr>
           in (case env (trace s1) of
                 TransportError m \<Rightarrow> LContinue s1
               | Resp r \<Rightarrow>
                   (if IsError r then LContinue s1
                    else postEntry env g c (Body r) s1))))"

subsection \<open>The loops (lines 173-234)\<close>

fun uploadEntries :: "network \<Rightarrow> globals \<Rightarrow> resty_Client \<Rightarrow> ChartVersion list \<Rightarrow> pkg_state \<Rightarrow> (panic \<times> event list) + pkg_state" where
  "uploadEntries env g c [] s = Inr s"
| "uploadEntries env g c (e # es) s =
     (case uploadEntry env g c e s of
        LBreak s' \<Rightarrow> Inr s'
      | LContinue s' \<Rightarrow> uploadEntries env g c es s'
      | LPanic p \<Rightarrow> Inl (p, trace s))"

text \<open>
  A panic ends the run; the history up to it is kept beside it. The outer loop ranges
  over a Go map, whose order of iteration is not fixed: the list
  is the packages in the order the run visits them.
\<close>

fun uploadPackages :: "network \<Rightarrow> globals \<Rightarrow> resty_Client \<Rightarrow> (string \<times> ChartVersion list) list \<Rightarrow> event list \<Rightarrow> (panic \<times> event list) + event list" where
  "uploadPackages env g c [] tr = Inr tr"
| "uploadPackages env g c (p # ps) tr =
     (case uploadEntries env g c (snd p) \<lparr>appID = '''', success = 0, trace = tr\<rparr> of
        Inl x \<Rightarrow> Inl x
      | Inr s' \<Rightarrow> uploadPackages env g c ps (trace s'))"

text \<open>
  How a call ends: it returns, or \<^verbatim>\<open>log.Fatal\<close> ends the process with the message,
  or the Go runtime panics.
\<close>

datatype 'a outcome = Returned 'a | Fatal string | Panicked panic

text \<open>
  The three helm calls of lines 158-171, each of which may fail, and the index they
  give otherwise.
\<close>

datatype index_fetch =
    NewChartRepositoryFailed string
  | DownloadIndexFileFailed string
  | LoadIndexFileFailed string
  | IndexEntries "(string \<times> ChartVersion list) list"

text \<open>\<^verbatim>\<open>uploadChart\<close> (lines 153-237): the error it returns, and the history.\<close>

definition uploadChart :: "network \<Rightarrow> globals \<Rightarrow> resty_Client \<Rightarrow> index_fetch \<Rightarrow> string option outcome \<times> event list" where
  "uploadChart env g c ix =
     (case ix of
        NewChartRepositoryFailed m \<Rightarrow> (Fatal (''failed to create chart repo: '' @ m), [])
      | DownloadIndexFileFailed m \<Rightarrow> (Fatal (''failed to download index file: '' @ m), [])
      | LoadIndexFileFailed m \<Rightarrow> (Fatal (''failed to load index file: '' @ m), [])
      | IndexEntries ps \<Rightarrow>
          (case uploadPackages env g c ps [] of
             Inl x \<Rightarrow> (Panicked (fst x), snd x)
           | Inr tr \<Rightarrow> (Returned None, tr)))"

text \<open>The URLs of the GET requests and of the POST requests of a history.\<close>

fun getURLs :: "event list \<Rightarrow> string list" where
  "getURLs [] = []"
| "getURLs (Get u h # evs) = u # getURLs evs"
| "getURLs (ev # evs) = getURLs evs"

fun postURLs :: "event list \<Rightarrow> string list" where
  "postURLs [] = []"
| "postURLs (Post u h b # evs) = u # postURLs evs"
| "postURLs (ev # evs) = postURLs evs"

section \<open>The reconciliation stages\<close>

subsection \<open>The cluster and its API\<close>

text \<open>
  What the program reads of an unstructured object: its name, its labels (\<open>None\<close> is
  the nil map that \<^verbatim>\<open>GetLabels\<close> returns for an object without labels) and the
  fields of its status.
\<close>

record kobject =
  obj_name :: string
  obj_labels :: "(string \<rightharpoonup> string) option"
  obj_status :: "string \<rightharpoonup> string"

datatype resource = appGVR | versionGVR

text \<open>A label selector \<^verbatim>\<open>key=value\<close>.\<close>

type_synonym selector = "string \<times> string"

datatype api_call =
    ListCall resource selector
  | UpdateCall resource kobject
  | UpdateStatusCall resource kobject

text \<open>
  The cluster: the stored applications and versions, and every call made to the API
  so far with the error it returned, if any.
\<close>

record cluster =
  apps :: "kobject list"
  versions :: "kobject list"
  calls :: "(api_call \<times> string option) list"

text \<open>
  The environment of the stages: \<open>faults n\<close> is the error of the call number \<open>n\<close>
  (from 0) when that call fails, \<open>clock n\<close> is \<^verbatim>\<open>time.Now().UTC()\<close> in RFC 3339
  after \<open>n\<close> calls.
\<close>

record api_env =
  faults :: "nat \<Rightarrow> string option"
  clock :: "nat \<Rightarrow> string"

definition matches :: "selector \<Rightarrow> kobject \<Rightarrow> bool" where
  "matches sel ob =
     (case obj_labels ob of None \<Rightarrow> False | Some m \<Rightarrow> m (fst sel) = Some (snd sel))"

definition objects :: "resource \<Rightarrow> cluster \<Rightarrow> kobject list" where
  "objects r k = (case r of appGVR \<Rightarrow> apps k | versionGVR \<Rightarrow> versions k)"

definition put_objects :: "resource \<Rightarrow> kobject list \<Rightarrow> cluster \<Rightarrow> cluster" where
  "put_objects r obs k =
     (case r of appGVR \<Rightarrow> k\<lparr>apps := obs\<rparr> | versionGVR \<Rightarrow> k\<lparr>versions := obs\<rparr>)"

text \<open>
  What a call that succeeds does to the stored objects. \<^verbatim>\<open>Update\<close> writes the
  object's labels and leaves the status, \<^verbatim>\<open>UpdateStatus\<close> writes the status and
  leaves the labels; the object is found by its name.
\<close>

fun apply_call :: "api_call \<Rightarrow> cluster \<Rightarrow> cluster" where
  "apply_call (ListCall r sel) k = k"
| "apply_call (UpdateCall r ob) k =
     put_objects r
       (map (\<lambda>x. if obj_name x = obj_name ob then x\<lparr>obj_labels := obj_labels ob\<rparr> else x)
          (objects r k)) k"
| "apply_call (UpdateStatusCall r ob) k =
     put_objects r
       (map (\<lambda>x. if obj_name x = obj_name ob then x\<lparr>obj_status := obj_status ob\<rparr> else x)
          (objects r k)) k"

definition api :: "api_env \<Rightarrow> api_call \<Rightarrow> cluster \<Rightarrow> string option \<times> cluster" where
  "api env c k =
     (case faults env (length (calls k)) of
        Some e \<Rightarrow> (Some e, k\<lparr>calls := calls k @ [(c, Some e)]\<rparr>)
      | None \<Rightarrow> (None, (apply_call c k)\<lparr>calls := calls k @ [(c, None)]\<rparr>))"

definition List_api :: "api_env \<Rightarrow> resource \<Rightarrow> selector \<Rightarrow> cluster \<Rightarrow> (string + kobject list) \<times> cluster" where
  "List_api env r sel k =
     (case api env (ListCall r sel) k of
        (Some e, k1) \<Rightarrow> (Inl e, k1)
      | (None, k1) \<Rightarrow> (Inr (filter (matches sel) (objects r k)), k1))"

subsection \<open>\<^verbatim>\<open>updateAppStatus\<close> (lines 297-317)\<close>

fun appStatusLoop :: "api_env \<Rightarrow> kobject list \<Rightarrow> cluster \<Rightarrow> string option outcome \<times> cluster" where
  "appStatusLoop env [] k = (Returned None, k)"
| "appStatusLoop env (item # items) k =
     (let currentTime = clock env (length (calls k));
          item1 = item\<lparr>obj_status :=
                    (obj_status item)(''state'' \<mapsto> ''active'', ''updateTime'' \<mapsto> currentTime)\<rparr>
      in case api env (UpdateStatusCall appGVR item1) k of
           (Some e, k1) \<Rightarrow> (Returned (Some e), k1)
         | (None, k1) \<Rightarrow> appStatusLoop env items k1)"

definition updateAppStatus :: "api_env \<Rightarrow> selector \<Rightarrow> cluster \<Rightarrow> string option outcome \<times> cluster" where
  "updateAppStatus env listOptions k =
     (case List_api env appGVR listOptions k of
        (Inl e, k1) \<Rightarrow> (Returned (Some e), k1)
      | (Inr items, k1) \<Rightarrow> appStatusLoop env items k1)"

subsection \<open>\<^verbatim>\<open>updateAppLabel\<close> (lines 273-295)\<close>

text \<open>
  Lines 282-284: the entries of \<^verbatim>\<open>label\<close>, in the order the range visits them, are
  written into \<^verbatim>\<open>labels\<close>. Writing into the nil map panics.
\<close>

fun setLabels :: "(string \<rightharpoonup> string) option \<Rightarrow> (string \<times> string) list \<Rightarrow> panic + (string \<rightharpoonup> string) option" where
  "setLabels ls [] = Inr ls"
| "setLabels None (kv # kvs) = Inl NilMapAssignment"
| "setLabels (Some m) (kv # kvs) = setLabels (Some (m(fst kv \<mapsto> snd kv))) kvs"

text \<open>Lines 281-286: the object that is sent to \<^verbatim>\<open>Update\<close>.\<close>

definition patchItem :: "(string \<times> string) list \<Rightarrow> kobject \<Rightarrow> panic + kobject" where
  "patchItem label item =
     (case setLabels (obj_labels item) label of
        Inl p \<Rightarrow> Inl p
      | Inr ls \<Rightarrow> Inr (item\<lparr>obj_labels := ls\<rparr>))"

fun appLabelLoop :: "api_env \<Rightarrow> (string \<times> string) list \<Rightarrow> kobject list \<Rightarrow> cluster \<Rightarrow> string option outcome \<times> cluster" where
  "appLabelLoop env label [] k = (Returned None, k)"
| "appLabelLoop env label (item # items) k =
     (case patchItem label item of
        Inl p \<Rightarrow> (Panicked p, k)
      | Inr item1 \<Rightarrow>
          (case api env (UpdateCall appGVR item1) k of
             (Some e, k1) \<Rightarrow> (Returned (Some e), k1)
           | (None, k1) \<Rightarrow> appLabelLoop env label items k1))"

definition updateAppLabel :: "api_env \<Rightarrow> selector \<Rightarrow> (string \<times> string) list \<Rightarrow> cluster \<Rightarrow> string option outcome \<times> cluster" where
  "updateAppLabel env listOptions label k =
     (case List_api env appGVR listOptions k of
        (Inl e, k1) \<Rightarrow> (Returned (Some e), k1)
      | (Inr items, k1) \<Rightarrow> appLabelLoop env label items k1)"

subsection \<open>\<^verbatim>\<open>updateVersionStatus\<close> (lines 239-271)\<close>

fun versionItemsLoop :: "api_env \<Rightarrow> kobject list \<Rightarrow> cluster \<Rightarrow> string option outcome \<times> cluster" where
  "versionItemsLoop env [] k = (Returned None, k)"
| "versionItemsLoop env (versionItem # vs) k =
     (let currentTime = clock env (length (calls k));
          v1 = versionItem\<lparr>obj_status :=
                 (obj_status versionItem)(''updated'' \<mapsto> currentTime,
                    ''userName'' \<mapsto> ''admin'', ''state'' \<mapsto> ''active'')\<rparr>
      in case api env (UpdateStatusCall versionGVR v1) k of
           (Some e, k1) \<Rightarrow> (Returned (Some e), k1)
         | (None, k1) \<Rightarrow> versionItemsLoop env vs k1)"

fun versionAppsLoop :: "api_env \<Rightarrow> kobject list \<Rightarrow> cluster \<Rightarrow> string option outcome \<times> cluster" where
  "versionAppsLoop env [] k = (Returned None, k)"
| "versionAppsLoop env (item # items) k =
     (let options = (''application.kubesphere.io/app-id'', obj_name item)
      in case List_api env versionGVR options k of
           (Inl e, k1) \<Rightarrow> (Returned (Some e), k1)
         | (Inr versionList, k1) \<Rightarrow>
             (case versionItemsLoop env versionList k1 of
                (Returned None, k2) \<Rightarrow> versionAppsLoop env items k2
              | (r, k2) \<Rightarrow> (r, k2)))"

definition updateVersionStatus :: "api_env \<Rightarrow> selector \<Rightarrow> cluster \<Rightarrow> string option outcome \<times> cluster" where
  "updateVersionStatus env listOptions k =
     (case List_api env appGVR listOptions k of
        (Inl e, k1) \<Rightarrow> (Returned (Some e), k1)
      | (Inr items, k1) \<Rightarrow> versionAppsLoop env items k1)"

section \<open>\<^verbatim>\<open>run\<close> and \<^verbatim>\<open>main\<close>\<close>

definition categoryKey :: string where
  "categoryKey = ''application.kubesphere.io/app-category-name''"

definition storeLabel :: "(string \<times> string) list" where
  "storeLabel = [(''application.kubesphere.io/app-store'', ''true'')]"

definition categoryLabel :: "(string \<times> string) list" where
  "categoryLabel = [(categoryKey, ''kubesphere-app-uncategorized'')]"

text \<open>
  The pattern of lines 115-118: when the stage returned an error, \<^verbatim>\<open>log.Fatal\<close>
  with the message of the stage; otherwise go on.
\<close>

definition orFatal :: "string \<Rightarrow> string option outcome \<times> cluster \<Rightarrow> (cluster \<Rightarrow> unit outcome \<times> cluster) \<Rightarrow> unit outcome \<times> cluster" where
  "orFatal msg r cont =
     (case r of
        (Returned None, k) \<Rightarrow> cont k
      | (Returned (Some e), k) \<Rightarrow> (Fatal (msg @ e), k)
      | (Fatal m, k) \<Rightarrow> (Fatal m, k)
      | (Panicked p, k) \<Rightarrow> (Panicked p, k))"

text \<open>Lines 111-139 of \<^verbatim>\<open>run\<close>: the four stages.\<close>

definition reconcile :: "api_env \<Rightarrow> cluster \<Rightarrow> unit outcome \<times> cluster" where
  "reconcile env k =
     (let listOptions = (categoryKey, mark)
      in orFatal ''[1/4] Failed to update app status: '' (updateAppStatus env listOptions k)
           (\<lambda>k1. orFatal ''[2/4] Failed to update app label: ''
                    (updateAppLabel env listOptions storeLabel k1)
           (\<lambda>k2. orFatal ''[3/4] Failed to update version status: ''
                    (updateVersionStatus env listOptions k2)
           (\<lambda>k3. orFatal ''[4/4] Failed to update app category label: ''
                    (updateAppLabel env listOptions categoryLabel k3)
           (\<lambda>k4. (Returned (), k4))))))"

text \<open>
  \<^verbatim>\<open>initDynamicClient\<close> (lines 142-151): \<^verbatim>\<open>GetConfigOrDie\<close> ends the process
  when there is no configuration, \<^verbatim>\<open>NewForConfig\<close> may return an error.
\<close>

datatype client_init = GetConfigDied | NewForConfigFailed string | ClientReady

text \<open>
  Everything outside the program that a run meets. \<open>catalog\<close> is what the cluster holds
  once the server has received the requests of a history.
\<close>

record world =
  http :: network
  index :: index_fetch
  dynamic :: client_init
  catalog :: "event list \<Rightarrow> cluster"
  kube :: api_env
  tokenFile :: "string option"

text \<open>How the process ends, the requests it has sent and the cluster it leaves.\<close>

record run_result =
  ending :: "unit outcome"
  sent :: "event list"
  final :: "cluster option"

definition run :: "world \<Rightarrow> globals \<Rightarrow> resty_Client \<Rightarrow> run_result" where
  "run w g resty_client =
     (case dynamic w of
        GetConfigDied \<Rightarrow> \<lparr>ending = Fatal ''unable to get kubeconfig'', sent = [], final = None\<rparr>
      | NewForConfigFailed m \<Rightarrow>
          \<lparr>ending = Fatal (''Failed to initialize dynamic client: '' @ m), sent = [], final = None\<rparr>
      | ClientReady \<Rightarrow>
          (case uploadChart (http w) g resty_client (index w) of
             (Returned (Some e), tr) \<Rightarrow>
               \<lparr>ending = Fatal (''Failed to upload chart: '' @ e), sent = tr, final = None\<rparr>
           | (Fatal m, tr) \<Rightarrow> \<lparr>ending = Fatal m, sent = tr, final = None\<rparr>
           | (Panicked p, tr) \<Rightarrow> \<lparr>ending = Panicked p, sent = tr, final = None\<rparr>
           | (Returned None, tr) \<Rightarrow>
               (case reconcile (kube w) (catalog w tr) of
                  (r, k) \<Rightarrow> \<lparr>ending = r, sent = tr, final = Some k\<rparr>)))"

text \<open>
  The command line: the value given to each flag, \<open>None\<close> for a flag that is absent.
\<close>

record flags =
  flag_server :: "string option"
  flag_repo :: "string option"
  flag_token :: "string option"
  flag_limit :: "int option"

text \<open>
  \<^verbatim>\<open>main\<close> (lines 62-96). The client and its headers are built at lines 63-65, from
  the variables as they are then; the flags are registered at lines 84-87 and parsed
  inside \<^verbatim>\<open>Execute\<close> at line 92, which then calls the \<^verbatim>\<open>Run\<close> closure of lines
  70-81. A required flag that is missing makes \<^verbatim>\<open>Execute\<close> return an error.
\<close>

definition main :: "world \<Rightarrow> flags \<Rightarrow> run_result" where
  "main w fl =
     (let g0 = \<lparr>serverURL = '''', token = '''', repoURL = '''', limit = 0\<rparr>;
          resty_client =
            SetTimeout 5
              (SetHeader ''Authorization'' (''Bearer '' @ token g0)
                 (SetHeader ''Content-Type'' ''application/json'' resty_New));
          g1 = g0\<lparr>serverURL := '''', repoURL := '''', token := '''', limit := 1\<rparr>
      in case (flag_server fl, flag_repo fl) of
           (Some s, Some r) \<Rightarrow>
             (let g2 = g1\<lparr>serverURL := s, repoURL := r,
                         token := (case flag_token fl of None \<Rightarrow> token g1 | Some t \<Rightarrow> t),
                         limit := (case flag_limit fl of None \<Rightarrow> limit g1 | Some n \<Rightarrow> n)\<rparr>
              in if token g2 = '''' then
                   (case tokenFile w of
                      None \<Rightarrow> \<lparr>ending = Fatal ''Failed to read token file'', sent = [], final = None\<rparr>
                    | Some data \<Rightarrow> run w (g2\<lparr>token := data\<rparr>) resty_client)
                 else run w g2 resty_client)
         | _ \<Rightarrow> \<lparr>ending = Fatal ''required flag(s) not set'', sent = [], final = None\<rparr>)"

text \<open>The value of the Authorization header of each request of a history.\<close>

fun authHeaders :: "event list \<Rightarrow> string option list" where
  "authHeaders [] = []"
| "authHeaders (Get u h # evs) = h ''Authorization'' # authHeaders evs"
| "authHeaders (Post u h b # evs) = h ''Authorization'' # authHeaders evs"
| "authHeaders (Sleep n # evs) = authHeaders evs"

section \<open>Notions the properties are stated with\<close>

subsection \<open>The uploader\<close>

text \<open>The entries of a package before its first deprecated one.\<close>

abbreviation live :: "ChartVersion list \<Rightarrow> ChartVersion list" where
  "live es \<equiv> takeWhile (\<lambda>e. \<not> Deprecated e) es"

text \<open>
  The two tests the loop makes after each request (lines 186 and 191, 216 and 221): the
  request failed when the transport returned an error or the response is an error.
\<close>

definition requestFailed :: "http_result \<Rightarrow> bool" where
  "requestFailed res = (case res of TransportError m \<Rightarrow> True | Resp r \<Rightarrow> IsError r)"

text \<open>
  The number of POST requests among the events \<open>evs\<close>, sent after the history
  \<open>old\<close>, that the network answered without an error.
\<close>

fun okPosts :: "network \<Rightarrow> event list \<Rightarrow> event list \<Rightarrow> nat" where
  "okPosts env old [] = 0"
| "okPosts env old (ev # evs) =
     (case ev of
        Post u h b \<Rightarrow>
          (case env (old @ [ev]) of
             Resp r \<Rightarrow> (if IsError r then 0 else 1)
           | TransportError m \<Rightarrow> 0)
      | _ \<Rightarrow> 0) + okPosts env (old @ [ev]) evs"

subsection \<open>The stages\<close>

text \<open>
  The stored objects after a list of calls, each with the error it returned: only the
  calls that succeeded change them.
\<close>

fun replay :: "(api_call \<times> string option) list \<Rightarrow> cluster \<Rightarrow> cluster" where
  "replay [] k = k"
| "replay (x # xs) k =
     replay xs (case snd x of None \<Rightarrow> apply_call (fst x) k | Some e \<Rightarrow> k)"

definition same_store :: "cluster \<Rightarrow> cluster \<Rightarrow> bool" where
  "same_store k k' \<longleftrightarrow> apps k = apps k' \<and> versions k = versions k'"

text \<open>
  The calls of a stage that returned \<open>r\<close>: when \<open>r\<close> is an error, the last call
  failed with that error and no call before it failed; otherwise no call failed.
\<close>

definition fail_fast :: "string option outcome \<Rightarrow> (api_call \<times> string option) list \<Rightarrow> bool" where
  "fail_fast r new =
     (case r of
        Returned (Some e) \<Rightarrow> (\<exists>pre c. new = pre @ [(c, Some e)] \<and> (\<forall>x \<in> set pre. snd x = None))
      | _ \<Rightarrow> (\<forall>x \<in> set new. snd x = None))"

text \<open>
  A stage that went from \<open>k\<close> to \<open>k'\<close> and returned \<open>r\<close>: the calls it added
  stop at the first failure, and the stored objects are what its successful calls made
  of them.
\<close>

definition stage_trace :: "string option outcome \<Rightarrow> cluster \<Rightarrow> cluster \<Rightarrow> bool" where
  "stage_trace r k k' \<longleftrightarrow>
     (\<exists>new. calls k' = calls k @ new \<and> fail_fast r new \<and> same_store k' (replay new k))"

text \<open>The category label of an application, and the categories of all of them by name.\<close>

definition category :: "kobject \<Rightarrow> string option" where
  "category ob = (case obj_labels ob of None \<Rightarrow> None | Some m \<Rightarrow> m categoryKey)"

definition cats :: "cluster \<Rightarrow> (string \<times> string option) list" where
  "cats k = map (\<lambda>x. (obj_name x, category x)) (apps k)"

text \<open>
  The application with the entries of the patch written over its labels; an application
  without a label map is left as it is.
\<close>

definition patchLabels :: "(string \<times> string) list \<Rightarrow> kobject \<Rightarrow> kobject" where
  "patchLabels label x =
     (case obj_labels x of
        None \<Rightarrow> x
      | Some m \<Rightarrow> x\<lparr>obj_labels := Some (m ++ map_of (rev label))\<rparr>)"

section \<open>Sample runs\<close>

text \<open>A network that answers every request with status 200.\<close>

definition okNet :: network where
  "okNet tr = Resp \<lparr>StatusCode = 200, Body = ''chart''\<rparr>"

text \<open>
  A network whose first request times out and whose third is answered with status 500.
\<close>

definition flakyNet :: network where
  "flakyNet tr =
     (if length tr = 1 then TransportError ''timeout''
      else if length tr = 3 then Resp \<lparr>StatusCode = 500, Body = ''''\<rparr>
      else Resp \<lparr>StatusCode = 200, Body = ''chart''\<rparr>)"

definition chart :: "string \<Rightarrow> string list \<Rightarrow> bool \<Rightarrow> ChartVersion" where
  "chart v us d = \<lparr>Name = ''nginx'', Version = v, URLs = us, Deprecated = d\<rparr>"

text \<open>Three versions of one package, the oldest deprecated; and three with none deprecated.\<close>

definition nginx3 :: "ChartVersion list" where
  "nginx3 = [chart ''3.0.0'' [''u3''] False, chart ''2.0.0'' [''u2''] False,
             chart ''1.0.0'' [''u1''] True]"

definition nginxLive :: "ChartVersion list" where
  "nginxLive = [chart ''3.0.0'' [''u3''] False, chart ''2.0.0'' [''u2''] False,
                chart ''1.0.0'' [''u1''] False]"

definition cfg :: "int \<Rightarrow> globals" where
  "cfg n = \<lparr>serverURL = ''http://ks'', token = ''secret'', repoURL = ''http://charts'', limit = n\<rparr>"

definition pkg0 :: pkg_state where
  "pkg0 = \<lparr>appID = '''', success = 0, trace = []\<rparr>"

definition app :: "string \<Rightarrow> (string \<rightharpoonup> string) option \<Rightarrow> kobject" where
  "app n ls = \<lparr>obj_name = n, obj_labels = ls, obj_status = Map.empty\<rparr>"

text \<open>Two imported applications, and one version of the first.\<close>

definition cluster2 :: cluster where
  "cluster2 =
     \<lparr>apps = [app ''app1'' (Some [categoryKey \<mapsto> mark]), app ''app2'' (Some [categoryKey \<mapsto> mark])],
      versions = [app ''ver1'' (Some [''application.kubesphere.io/app-id'' \<mapsto> ''app1''])],
      calls = []\<rparr>"

text \<open>An API whose call number \<open>n\<close> fails.\<close>

definition failAt :: "nat \<Rightarrow> api_env" where
  "failAt n =
     \<lparr>faults = (\<lambda>i. if i = n then Some ''conflict'' else None),
      clock = (\<lambda>i. ''2024-05-01T10:00:00Z'')\<rparr>"

definition world0 :: world where
  "world0 =
     \<lparr>http = okNet, index = IndexEntries [(''nginx'', nginx3)], dynamic = ClientReady,
      catalog = (\<lambda>tr. \<lparr>apps = [], versions = [], calls = []\<rparr>), kube = failAt 0,
      tokenFile = Some ''from-file''\<rparr>"

text \<open>A network that answers every request with status 304.\<close>

definition notModifiedNet :: network where
  "notModifiedNet tr = Resp \<lparr>StatusCode = 304, Body = ''''\<rparr>"

text \<open>A second package, of one version.\<close>

definition redis1 :: "ChartVersion list" where
  "redis1 = [\<lparr>Name = ''redis'', Version = ''7.0.0'', URLs = [''r7''], Deprecated = False\<rparr>]"

text \<open>An application labelled \<open>b = 2\<close> and one labelled \<open>c = 3\<close>.\<close>

definition clusterB :: cluster where
  "clusterB =
     \<lparr>apps = [app ''app1'' (Some [''b'' \<mapsto> ''2'']), app ''other'' (Some [''c'' \<mapsto> ''3''])],
      versions = [], calls = []\<rparr>"

section \<open>Lemmas\<close>

lemmas upl_simps = uploadEntry_def postEntry_def okNet_def flakyNet_def chart_def nginx3_def
  nginxLive_def cfg_def pkg0_def IsError_def createURL_def versionURL_def Let_def
  uploadChart_def resty_New_def

lemmas k_simps = app_def cluster2_def failAt_def updateAppStatus_def updateAppLabel_def
  updateVersionStatus_def List_api_def api_def matches_def objects_def put_objects_def
  categoryKey_def mark_def storeLabel_def categoryLabel_def patchItem_def Let_def

subsection \<open>The uploader\<close>

lemma getURLs_append: "getURLs (xs @ ys) = getURLs xs @ getURLs ys"
  by (induction xs rule: getURLs.induct) auto

lemma postURLs_append: "postURLs (xs @ ys) = postURLs xs @ postURLs ys"
  by (induction xs rule: postURLs.induct) auto

lemma okPosts_append:
  "okPosts env old (xs @ ys) = okPosts env old xs + okPosts env (old @ xs) ys"
  by (induction xs arbitrary: old) auto

lemma postEntry_result:
  "postEntry env g c body s = r \<Longrightarrow>
     (\<exists>s' new. (r = LBreak s' \<or> r = LContinue s') \<and> appID s' = appID s \<and>
        trace s' = trace s @ new \<and> getURLs new = [] \<and>
        postURLs new = [if appID s = '''' then createURL g else versionURL g (appID s)] \<and>
        success s' = success s + int (okPosts env (trace s) new) \<and>
        okPosts env (trace s) new \<le> 1 \<and>
        (r = LBreak s' \<longrightarrow> limit g \<le> success s' \<and> success s' = success s + 1) \<and>
        (r = LContinue s' \<longrightarrow> success s' = success s \<or> success s' < limit g))"
  unfolding postEntry_def Let_def
  by (auto split: http_result.splits if_splits simp: okPosts_append)

lemma uploadEntry_result:
  "\<not> Deprecated e \<Longrightarrow> URLs e = u # us \<Longrightarrow> uploadEntry env g c e s = r \<Longrightarrow>
     (\<exists>s' new. (r = LBreak s' \<or> r = LContinue s') \<and> appID s' = appID s \<and>
        trace s' = trace s @ Get u (Header c) # new \<and> getURLs new = [] \<and>
        success s' = success s + int (okPosts env (trace s) (Get u (Header c) # new)) \<and>
        (r = LBreak s' \<longrightarrow> limit g \<le> success s' \<and> success s' = success s + 1) \<and>
        (r = LContinue s' \<longrightarrow> success s' = success s \<or> success s' < limit g))"
proof -
  assume nd: "\<not> Deprecated e" and ur: "URLs e = u # us" and res: "uploadEntry env g c e s = r"
  let ?s1 = "s\<lparr>trace := trace s @ [Get u (Header c)]\<rparr>"
  have stay: "r = LContinue ?s1 \<Longrightarrow> ?thesis"
    by (intro exI[of _ ?s1] exI[of _ "[]"]) simp
  show ?thesis
  proof (cases "env (trace ?s1)")
    case (TransportError m)
    with nd ur res have "r = LContinue ?s1"
      by (simp add: uploadEntry_def)
    then show ?thesis by (rule stay)
  next
    case (Resp x)
    show ?thesis
    proof (cases "IsError x")
      case True
      with Resp nd ur res have "r = LContinue ?s1"
        by (simp add: uploadEntry_def)
      then show ?thesis by (rule stay)
    next
      case False
      with Resp nd ur res have "postEntry env g c (Body x) ?s1 = r"
        by (simp add: uploadEntry_def)
      from postEntry_result[OF this] obtain s' new where
        p: "r = LBreak s' \<or> r = LContinue s'" "appID s' = appID s"
           "trace s' = trace s @ Get u (Header c) # new" "getURLs new = []"
           "success s' = success s + int (okPosts env (trace s @ [Get u (Header c)]) new)"
           "r = LBreak s' \<longrightarrow> limit g \<le> success s' \<and> success s' = success s + 1"
           "r = LContinue s' \<longrightarrow> success s' = success s \<or> success s' < limit g"
        by auto
      show ?thesis
        by (intro exI[of _ s'] exI[of _ new]) (use p in auto)
    qed
  qed
qed

lemma uploadEntries_takeWhile:
  "uploadEntries env g c es s = uploadEntries env g c (live es) s"
  by (induction es arbitrary: s) (auto simp: uploadEntry_def split: loop_ctl.splits)

lemma uploadEntries_Inr:
  "uploadEntries env g c es s = Inr s' \<Longrightarrow>
     \<exists>new n. appID s' = appID s \<and> trace s' = trace s @ new \<and> n \<le> length (live es) \<and>
       getURLs new = map (\<lambda>e. hd (URLs e)) (take n (live es)) \<and>
       success s' = success s + int (okPosts env (trace s) new) \<and>
       success s' \<le> max (success s + 1) (limit g) \<and>
       (success s' < limit g \<longrightarrow> n = length (live es))"
proof (induction es arbitrary: s)
  case Nil
  then show ?case by (intro exI[of _ "[]"] exI[of _ 0]) simp
next
  case (Cons e es)
  show ?case
  proof (cases "Deprecated e")
    case True
    with Cons.prems have "s' = s" by (simp add: uploadEntry_def)
    with True show ?thesis by (intro exI[of _ "[]"] exI[of _ 0]) simp
  next
    case False
    with Cons.prems obtain u us where ur: "URLs e = u # us"
      by (cases "URLs e") (auto simp: uploadEntry_def)
    from uploadEntry_result[OF False ur refl, of env g c s] obtain s1 new1 where
      r: "uploadEntry env g c e s = LBreak s1 \<or> uploadEntry env g c e s = LContinue s1"
      and a: "appID s1 = appID s"
      and t: "trace s1 = trace s @ Get u (Header c) # new1" "getURLs new1 = []"
      and k: "success s1 = success s + int (okPosts env (trace s) (Get u (Header c) # new1))"
      and b: "uploadEntry env g c e s = LBreak s1 \<longrightarrow> limit g \<le> success s1 \<and> success s1 = success s + 1"
      and n: "uploadEntry env g c e s = LContinue s1 \<longrightarrow> success s1 = success s \<or> success s1 < limit g"
      by blast
    from r show ?thesis
    proof
      assume br: "uploadEntry env g c e s = LBreak s1"
      with Cons.prems have "s' = s1" by simp
      with False ur a t k b br show ?thesis
        by (intro exI[of _ "Get u (Header c) # new1"] exI[of _ 1]) simp
    next
      assume co: "uploadEntry env g c e s = LContinue s1"
      with Cons.prems have "uploadEntries env g c es s1 = Inr s'" by simp
      from Cons.IH[OF this] obtain new2 m where
        i: "appID s' = appID s1" "trace s' = trace s1 @ new2" "m \<le> length (live es)"
           "getURLs new2 = map (\<lambda>e. hd (URLs e)) (take m (live es))"
           "success s' = success s1 + int (okPosts env (trace s1) new2)"
           "success s' \<le> max (success s1 + 1) (limit g)"
           "success s' < limit g \<longrightarrow> m = length (live es)"
        by blast
      from n co have "success s1 = success s \<or> success s1 < limit g" by simp
      with i(6) have le: "success s' \<le> max (success s + 1) (limit g)" by auto
      have ok: "okPosts env (trace s) ((Get u (Header c) # new1) @ new2) =
          okPosts env (trace s) (Get u (Header c) # new1) + okPosts env (trace s1) new2"
        using t(1) by (simp only: okPosts_append)
      show ?thesis
        apply (intro exI[of _ "(Get u (Header c) # new1) @ new2"] exI[of _ "Suc m"])
        apply (simp only: ok)
        using False ur a t k i le by (simp add: getURLs_append)
    qed
  qed
qed

lemma uploadEntries_total:
  "\<forall>e \<in> set (live es). URLs e \<noteq> [] \<Longrightarrow> \<exists>s'. uploadEntries env g c es s = Inr s'"
proof (induction es arbitrary: s)
  case Nil
  then show ?case by simp
next
  case (Cons e es)
  show ?case
  proof (cases "Deprecated e")
    case True
    then show ?thesis by (simp add: uploadEntry_def)
  next
    case False
    with Cons.prems obtain u us where ur: "URLs e = u # us"
      by (cases "URLs e") auto
    from uploadEntry_result[OF False ur refl, of env g c s] obtain s1 where
      r: "uploadEntry env g c e s = LBreak s1 \<or> uploadEntry env g c e s = LContinue s1"
      by blast
    from Cons.prems False have "\<forall>e \<in> set (live es). URLs e \<noteq> []" by simp
    from Cons.IH[OF this] r show ?thesis by auto
  qed
qed

lemma uploadEntries_panics:
  "uploadEntries env g c es s = Inl p \<Longrightarrow>
     fst p = IndexOutOfRange \<and> (\<exists>e \<in> set (live es). URLs e = [])"
proof (induction es arbitrary: s)
  case Nil
  then show ?case by simp
next
  case (Cons e es)
  show ?case
  proof (cases "Deprecated e")
    case True
    with Cons.prems show ?thesis by (simp add: uploadEntry_def)
  next
    case False
    show ?thesis
    proof (cases "URLs e = []")
      case True
      with False Cons.prems show ?thesis by (auto simp: uploadEntry_def)
    next
      case ne: False
      then obtain u us where ur: "URLs e = u # us" by (cases "URLs e") auto
      from uploadEntry_result[OF False ur refl, of env g c s] obtain s1 where
        r: "uploadEntry env g c e s = LBreak s1 \<or> uploadEntry env g c e s = LContinue s1"
        by blast
      with Cons.prems have "uploadEntries env g c es s1 = Inl p" by auto
      from Cons.IH[OF this] False show ?thesis by simp
    qed
  qed
qed

lemma uploadEntries_stops_at_limit:
  "uploadEntries env g c es s = Inr s' \<Longrightarrow> success s < success s' \<Longrightarrow>
   limit g \<le> success s' \<Longrightarrow> uploadEntries env g c (es @ rest) s = Inr s'"
proof (induction es arbitrary: s)
  case Nil
  then show ?case by simp
next
  case (Cons e es)
  show ?case
  proof (cases "uploadEntry env g c e s")
    case (LBreak s1)
    with Cons.prems show ?thesis by simp
  next
    case (LPanic p)
    with Cons.prems show ?thesis by simp
  next
    case (LContinue s1)
    with Cons.prems have run: "uploadEntries env g c es s1 = Inr s'" by simp
    have nd: "\<not> Deprecated e" using LContinue by (auto simp: uploadEntry_def)
    then obtain u us where ur: "URLs e = u # us"
      using LContinue by (cases "URLs e") (auto simp: uploadEntry_def)
    from uploadEntry_result[OF nd ur LContinue]
    have "success s1 = success s \<or> success s1 < limit g" by auto
    with Cons.prems have "success s1 < success s'" by auto
    from Cons.IH[OF run this Cons.prems(3)] LContinue show ?thesis by simp
  qed
qed

subsection \<open>The calls of a stage\<close>

lemma same_store_refl: "same_store k k"
  by (simp add: same_store_def)

lemma same_store_apply_call:
  "same_store a b \<Longrightarrow> same_store (apply_call c a) (apply_call c b)"
  by (cases c; cases "case c of ListCall r s \<Rightarrow> r | UpdateCall r ob \<Rightarrow> r | UpdateStatusCall r ob \<Rightarrow> r")
     (auto simp: same_store_def put_objects_def objects_def)

lemma same_store_replay:
  "same_store a b \<Longrightarrow> same_store (replay xs a) (replay xs b)"
  by (induction xs arbitrary: a b) (auto split: option.splits intro: same_store_apply_call)

lemma replay_append: "replay (xs @ ys) k = replay ys (replay xs k)"
  by (induction xs arbitrary: k) auto

lemma calls_apply_call: "calls (apply_call c k) = calls k"
  by (cases c; cases "case c of ListCall r s \<Rightarrow> r | UpdateCall r ob \<Rightarrow> r | UpdateStatusCall r ob \<Rightarrow> r")
     (auto simp: put_objects_def)

lemma api_ok:
  "api env c k = (None, k1) \<Longrightarrow>
     calls k1 = calls k @ [(c, None)] \<and> same_store k1 (apply_call c k)"
  by (auto simp: api_def same_store_def calls_apply_call split: option.splits)

lemma api_fail:
  "api env c k = (Some e, k1) \<Longrightarrow> calls k1 = calls k @ [(c, Some e)] \<and> same_store k1 k"
  by (auto simp: api_def same_store_def split: option.splits)

lemma fail_fast_Cons:
  "fail_fast r new \<Longrightarrow> fail_fast r ((c, None) # new)"
  unfolding fail_fast_def
  apply (cases r; simp)
  subgoal for x
    apply (cases x; simp)
    apply (elim exE conjE)
    subgoal for e pre c'
      by (intro exI[of _ "(c, None) # pre"] exI[of _ c']) simp
    done
  done

lemma fail_fast_append:
  "\<forall>x \<in> set pre. snd x = None \<Longrightarrow> fail_fast r new \<Longrightarrow> fail_fast r (pre @ new)"
  by (induction pre) (auto intro: fail_fast_Cons)

lemma stage_trace_refl:
  "r = Returned None \<or> r = Panicked p \<Longrightarrow> stage_trace r k k"
  unfolding stage_trace_def
  by (intro exI[of _ "[]"]) (auto simp: fail_fast_def same_store_def)

lemma stage_trace_fail:
  "api env c k = (Some e, k1) \<Longrightarrow> stage_trace (Returned (Some e)) k k1"
  unfolding stage_trace_def
  by (intro exI[of _ "[(c, Some e)]"]) (auto dest!: api_fail simp: fail_fast_def)

lemma stage_trace_step:
  assumes "api env c k = (None, k1)" and "stage_trace r k1 k2"
  shows "stage_trace r k k2"
proof -
  from assms(2) obtain new where
    n: "calls k2 = calls k1 @ new" "fail_fast r new" "same_store k2 (replay new k1)"
    by (auto simp: stage_trace_def)
  from api_ok[OF assms(1)] have
    a: "calls k1 = calls k @ [(c, None)]" "same_store k1 (apply_call c k)" by auto
  from same_store_replay[OF a(2)] n(3)
  have "same_store k2 (replay ((c, None) # new) k)"
    by (simp add: same_store_def)
  with n a fail_fast_Cons[OF n(2)] show ?thesis
    unfolding stage_trace_def by (intro exI[of _ "(c, None) # new"]) simp
qed

lemma stage_trace_trans:
  assumes "stage_trace (Returned None) k k1" and "stage_trace r k1 k2"
  shows "stage_trace r k k2"
proof -
  from assms(1) obtain n1 where
    a: "calls k1 = calls k @ n1" "\<forall>x \<in> set n1. snd x = None" "same_store k1 (replay n1 k)"
    by (auto simp: stage_trace_def fail_fast_def)
  from assms(2) obtain n2 where
    b: "calls k2 = calls k1 @ n2" "fail_fast r n2" "same_store k2 (replay n2 k1)"
    by (auto simp: stage_trace_def)
  from same_store_replay[OF a(3)] b(3)
  have "same_store k2 (replay (n1 @ n2) k)"
    by (simp add: same_store_def replay_append)
  with a b fail_fast_append[OF a(2) b(2)] show ?thesis
    unfolding stage_trace_def by (intro exI[of _ "n1 @ n2"]) simp
qed

lemma List_api_Inl:
  "List_api env r sel k = (Inl e, k1) \<Longrightarrow> api env (ListCall r sel) k = (Some e, k1)"
  by (auto simp: List_api_def split: prod.splits option.splits)

lemma List_api_Inr:
  "List_api env r sel k = (Inr items, k1) \<Longrightarrow>
     api env (ListCall r sel) k = (None, k1) \<and> items = filter (matches sel) (objects r k)"
  by (auto simp: List_api_def split: prod.splits option.splits)

lemma appStatusLoop_trace:
  "appStatusLoop env items k = (r, k') \<Longrightarrow> stage_trace r k k'"
proof (induction items arbitrary: k)
  case Nil
  then show ?case by (auto intro: stage_trace_refl)
next
  case (Cons item items)
  then show ?case
    by (auto simp: Let_def split: prod.splits option.splits
        intro: stage_trace_fail stage_trace_step)
qed

lemma appLabelLoop_trace:
  "appLabelLoop env label items k = (r, k') \<Longrightarrow> stage_trace r k k'"
proof (induction items arbitrary: k)
  case Nil
  then show ?case by (auto intro: stage_trace_refl)
next
  case (Cons item items)
  then show ?case
    by (auto simp: Let_def split: prod.splits option.splits sum.splits
        intro: stage_trace_fail stage_trace_step stage_trace_refl)
qed

lemma versionItemsLoop_trace:
  "versionItemsLoop env items k = (r, k') \<Longrightarrow> stage_trace r k k'"
proof (induction items arbitrary: k)
  case Nil
  then show ?case by (auto intro: stage_trace_refl)
next
  case (Cons item items)
  then show ?case
    by (auto simp: Let_def split: prod.splits option.splits
        intro: stage_trace_fail stage_trace_step)
qed

lemma versionAppsLoop_trace:
  "versionAppsLoop env items k = (r, k') \<Longrightarrow> stage_trace r k k'"
proof (induction items arbitrary: k)
  case Nil
  then show ?case by (auto intro: stage_trace_refl)
next
  case (Cons item items)
  let ?opt = "(''application.kubesphere.io/app-id'', obj_name item)"
  obtain l k1 where l: "List_api env versionGVR ?opt k = (l, k1)" by force
  show ?case
  proof (cases l)
    case (Inl e)
    with l Cons.prems have "r = Returned (Some e)" "k' = k1" by auto
    with List_api_Inl[OF l[unfolded Inl]] show ?thesis by (auto intro: stage_trace_fail)
  next
    case (Inr vs)
    from List_api_Inr[OF l[unfolded Inr]] have a: "api env (ListCall versionGVR ?opt) k = (None, k1)"
      by simp
    obtain r2 k2 where v: "versionItemsLoop env vs k1 = (r2, k2)" by force
    from versionItemsLoop_trace[OF v] have t2: "stage_trace r2 k1 k2" .
    show ?thesis
    proof (cases "r2 = Returned None")
      case True
      with l Inr v Cons.prems have "versionAppsLoop env items k2 = (r, k')" by simp
      from Cons.IH[OF this] t2 True have "stage_trace r k1 k'"
        by (auto intro: stage_trace_trans)
      with a show ?thesis by (rule stage_trace_step)
    next
      case False
      with l Inr v Cons.prems have "r = r2" "k' = k2"
        by (auto split: outcome.splits option.splits)
      with t2 a show ?thesis by (auto intro: stage_trace_step)
    qed
  qed
qed

lemma stage_from_List:
  assumes "\<And>items k1. api env (ListCall appGVR sel) k = (None, k1) \<Longrightarrow>
             items = filter (matches sel) (apps k) \<Longrightarrow> stage_trace (fst (loop items k1)) k1 (snd (loop items k1))"
  shows "stage_trace
     (fst (case List_api env appGVR sel k of (Inl e, k1) \<Rightarrow> (Returned (Some e), k1) | (Inr items, k1) \<Rightarrow> loop items k1))
     k
     (snd (case List_api env appGVR sel k of (Inl e, k1) \<Rightarrow> (Returned (Some e), k1) | (Inr items, k1) \<Rightarrow> loop items k1))"
proof -
  obtain l k1 where l: "List_api env appGVR sel k = (l, k1)" by force
  show ?thesis
  proof (cases l)
    case (Inl e)
    with l List_api_Inl[OF l[unfolded Inl]] show ?thesis
      by (auto intro: stage_trace_fail)
  next
    case (Inr items)
    from List_api_Inr[OF l[unfolded Inr]] have
      a: "api env (ListCall appGVR sel) k = (None, k1)" "items = filter (matches sel) (apps k)"
      by (auto simp: objects_def)
    from assms[OF a] a(1) l Inr show ?thesis
      by (auto intro: stage_trace_step)
  qed
qed

subsection \<open>Labels and categories\<close>

lemma setLabels_Some:
  "setLabels (Some m) label = Inr (Some (m ++ map_of (rev label)))"
proof (induction label arbitrary: m)
  case Nil
  then show ?case by simp
next
  case (Cons kv kvs)
  have eq: "m(fst kv \<mapsto> snd kv) ++ map_of (rev kvs) = m ++ map_of (rev (kv # kvs))"
    by (cases kv) (simp add: fun_eq_iff map_add_def split: option.splits)
  have "setLabels (Some m) (kv # kvs) = setLabels (Some (m(fst kv \<mapsto> snd kv))) kvs"
    by (simp add: fun_upd_def)
  then show ?case by (simp only: Cons eq)
qed

lemma setLabels_None: "setLabels None label = (if label = [] then Inr None else Inl NilMapAssignment)"
  by (cases label) auto

lemma patchItem_Some:
  "obj_labels item = Some m \<Longrightarrow>
     patchItem label item = Inr (item\<lparr>obj_labels := Some (m ++ map_of (rev label))\<rparr>)"
  by (simp add: patchItem_def setLabels_Some)

lemma patchItem_Inl:
  "patchItem label item = Inl p \<longleftrightarrow> obj_labels item = None \<and> label \<noteq> [] \<and> p = NilMapAssignment"
  by (cases "obj_labels item")
     (auto simp: patchItem_def setLabels_Some setLabels_None)

lemma patchItem_category:
  assumes "categoryKey \<notin> fst ` set label" and "patchItem label item = Inr item1"
  shows "category item1 = category item \<and> obj_name item1 = obj_name item"
proof (cases "obj_labels item")
  case None
  with assms(2) show ?thesis
    by (auto simp: patchItem_def setLabels_None category_def split: if_splits)
next
  case (Some m)
  from assms(1) have "map_of (rev label) categoryKey = None"
    by (simp add: map_of_eq_None_iff)
  with Some assms(2) show ?thesis
    by (auto simp: patchItem_Some category_def map_add_def)
qed

lemma cats_api_List: "api env (ListCall r sel) k = (e, k1) \<Longrightarrow> apps k1 = apps k \<and> versions k1 = versions k"
  by (auto simp: api_def split: option.splits)

lemma cats_api_UpdateStatus: "api env (UpdateStatusCall r ob) k = (e, k1) \<Longrightarrow> cats k1 = cats k"
  by (cases r)
     (auto simp: api_def cats_def category_def put_objects_def objects_def split: option.splits)

lemma cats_api_Update:
  assumes "api env (UpdateCall appGVR ob) k = (e, k1)"
    and "\<forall>p \<in> set (cats k). fst p = obj_name ob \<longrightarrow> snd p = category ob"
  shows "cats k1 = cats k"
proof -
  have "map (\<lambda>x. (obj_name x, category x))
          (map (\<lambda>x. if obj_name x = obj_name ob then x\<lparr>obj_labels := obj_labels ob\<rparr> else x) (apps k))
        = map (\<lambda>x. (obj_name x, category x)) (apps k)"
    using assms(2) by (auto simp: cats_def category_def)
  with assms(1) show ?thesis
    by (auto simp: api_def cats_def put_objects_def objects_def split: option.splits)
qed

lemma List_api_apps:
  "List_api env r sel k = (l, k1) \<Longrightarrow> apps k1 = apps k \<and> versions k1 = versions k"
  by (auto simp: List_api_def api_def split: option.splits prod.splits)

lemma appStatusLoop_cats: "appStatusLoop env items k = (r, k') \<Longrightarrow> cats k' = cats k"
  by (induction items arbitrary: k)
     (auto simp: Let_def split: prod.splits option.splits dest: cats_api_UpdateStatus)

lemma versionItemsLoop_cats: "versionItemsLoop env items k = (r, k') \<Longrightarrow> cats k' = cats k"
  by (induction items arbitrary: k)
     (auto simp: Let_def split: prod.splits option.splits dest: cats_api_UpdateStatus)

lemma versionAppsLoop_cats: "versionAppsLoop env items k = (r, k') \<Longrightarrow> cats k' = cats k"
proof (induction items arbitrary: k)
  case Nil
  then show ?case by simp
next
  case (Cons item items)
  let ?opt = "(''application.kubesphere.io/app-id'', obj_name item)"
  obtain l k1 where l: "List_api env versionGVR ?opt k = (l, k1)" by force
  from List_api_apps[OF l] have c1: "cats k1 = cats k" by (simp add: cats_def)
  show ?case
  proof (cases l)
    case (Inl e)
    with l Cons.prems c1 show ?thesis by auto
  next
    case (Inr vs)
    obtain r2 k2 where v: "versionItemsLoop env vs k1 = (r2, k2)" by force
    from versionItemsLoop_cats[OF v] c1 have c2: "cats k2 = cats k" by simp
    show ?thesis
    proof (cases "r2 = Returned None")
      case True
      with l Inr v Cons.prems have "versionAppsLoop env items k2 = (r, k')" by simp
      from Cons.IH[OF this] c2 show ?thesis by simp
    next
      case False
      with l Inr v Cons.prems have "k' = k2"
        by (auto split: outcome.splits option.splits)
      with c2 show ?thesis by simp
    qed
  qed
qed

lemma appLabelLoop_cats:
  assumes "categoryKey \<notin> fst ` set label"
  shows "\<forall>it \<in> set items. \<forall>p \<in> set (cats k). fst p = obj_name it \<longrightarrow> snd p = category it \<Longrightarrow>
         appLabelLoop env label items k = (r, k') \<Longrightarrow> cats k' = cats k"
proof (induction items arbitrary: k)
  case Nil
  then show ?case by simp
next
  case (Cons item items)
  show ?case
  proof (cases "patchItem label item")
    case (Inl p)
    with Cons.prems show ?thesis by simp
  next
    case (Inr item1)
    from patchItem_category[OF assms Inr] have
      i: "category item1 = category item" "obj_name item1 = obj_name item" by auto
    obtain e k1 where a: "api env (UpdateCall appGVR item1) k = (e, k1)" by force
    from Cons.prems(1) i have "\<forall>p \<in> set (cats k). fst p = obj_name item1 \<longrightarrow> snd p = category item1"
      by simp
    from cats_api_Update[OF a this] have c1: "cats k1 = cats k" .
    show ?thesis
    proof (cases e)
      case (Some err)
      with Inr a Cons.prems c1 show ?thesis by simp
    next
      case None
      with Inr a Cons.prems have run: "appLabelLoop env label items k1 = (r, k')" by simp
      from Cons.prems(1) c1 have
        "\<forall>it \<in> set items. \<forall>p \<in> set (cats k1). fst p = obj_name it \<longrightarrow> snd p = category it"
        by simp
      from Cons.IH[OF this run] c1 show ?thesis by simp
    qed
  qed
qed

lemma updateAppStatus_cats: "updateAppStatus env sel k = (r, k') \<Longrightarrow> cats k' = cats k"
  unfolding updateAppStatus_def
  by (auto split: prod.splits sum.splits dest!: List_api_apps appStatusLoop_cats simp: cats_def)

lemma updateVersionStatus_cats: "updateVersionStatus env sel k = (r, k') \<Longrightarrow> cats k' = cats k"
  unfolding updateVersionStatus_def
  by (auto split: prod.splits sum.splits dest!: List_api_apps versionAppsLoop_cats simp: cats_def)

lemma listed_cats:
  assumes "distinct (map obj_name (apps k))"
  shows "\<forall>it \<in> set (filter (matches sel) (apps k)). \<forall>p \<in> set (cats k).
           fst p = obj_name it \<longrightarrow> snd p = category it"
proof (intro ballI impI)
  fix it p
  assume it: "it \<in> set (filter (matches sel) (apps k))" and p: "p \<in> set (cats k)"
    and eq: "fst p = obj_name it"
  from p obtain x where x: "x \<in> set (apps k)" "p = (obj_name x, category x)"
    by (auto simp: cats_def)
  from assms have "inj_on obj_name (set (apps k))" by (simp add: distinct_map)
  with x it eq have "x = it" by (auto dest: inj_onD)
  with x show "snd p = category it" by simp
qed

lemma updateAppLabel_cats:
  assumes "distinct (map obj_name (apps k))" and "categoryKey \<notin> fst ` set label"
    and "updateAppLabel env sel label k = (r, k')"
  shows "cats k' = cats k"
proof -
  obtain l k1 where l: "List_api env appGVR sel k = (l, k1)" by force
  from List_api_apps[OF l] have c1: "cats k1 = cats k" by (simp add: cats_def)
  show ?thesis
  proof (cases l)
    case (Inl e)
    with l assms(3) c1 show ?thesis by (simp add: updateAppLabel_def)
  next
    case (Inr items)
    from List_api_Inr[OF l[unfolded Inr]] have it: "items = filter (matches sel) (apps k)"
      by (simp add: objects_def)
    from l Inr assms(3) have run: "appLabelLoop env label items k1 = (r, k')"
      by (simp add: updateAppLabel_def)
    from listed_cats[OF assms(1), of sel] it c1 have
      "\<forall>it \<in> set items. \<forall>p \<in> set (cats k1). fst p = obj_name it \<longrightarrow> snd p = category it"
      by simp
    from appLabelLoop_cats[OF assms(2) this run] c1 show ?thesis by simp
  qed
qed

lemma cats_names: "map fst (cats k) = map obj_name (apps k)"
  by (simp add: cats_def comp_def)

lemma appLabelLoop_no_panic:
  "\<forall>it \<in> set items. obj_labels it \<noteq> None \<Longrightarrow> fst (appLabelLoop env label items k) \<noteq> Panicked p"
proof (induction items arbitrary: k)
  case Nil
  then show ?case by simp
next
  case (Cons item items)
  then obtain m where m: "obj_labels item = Some m" by auto
  obtain e k1 where a: "api env (UpdateCall appGVR (item\<lparr>obj_labels := Some (m ++ map_of (rev label))\<rparr>)) k = (e, k1)"
    by force
  from Cons show ?case
    by (cases e) (simp_all add: patchItem_Some[OF m] a)
qed

lemma updateAppLabel_no_panic: "fst (updateAppLabel env sel label k) \<noteq> Panicked p"
proof -
  obtain l k1 where l: "List_api env appGVR sel k = (l, k1)" by force
  show ?thesis
  proof (cases l)
    case (Inl e)
    with l show ?thesis by (simp add: updateAppLabel_def)
  next
    case (Inr items)
    from List_api_Inr[OF l[unfolded Inr]] have "\<forall>it \<in> set items. obj_labels it \<noteq> None"
      by (auto simp: matches_def split: option.splits)
    from appLabelLoop_no_panic[OF this] l Inr show ?thesis
      by (simp add: updateAppLabel_def)
  qed
qed

lemma uploadPackages_total:
  "\<forall>p \<in> set ps. \<forall>e \<in> set (live (snd p)). URLs e \<noteq> [] \<Longrightarrow>
     \<exists>tr'. uploadPackages env g c ps tr = Inr tr'"
proof (induction ps arbitrary: tr)
  case Nil
  then show ?case by simp
next
  case (Cons p ps)
  then have "\<forall>e \<in> set (live (snd p)). URLs e \<noteq> []" by simp
  from uploadEntries_total[OF this] obtain s' where
    "uploadEntries env g c (snd p) \<lparr>appID = '''', success = 0, trace = tr\<rparr> = Inr s'" by blast
  with Cons show ?case by simp
qed

subsection \<open>Packages in turn, and the patch over a cluster\<close>

lemma uploadEntries_early:
  "uploadEntries env g c es s = Inr s' \<Longrightarrow>
     success s \<le> success s' \<and>
     (length (getURLs (trace s')) < length (getURLs (trace s)) + length (live es) \<longrightarrow>
        success s < success s')"
proof (induction es arbitrary: s)
  case Nil
  then show ?case by simp
next
  case (Cons e es)
  show ?case
  proof (cases "Deprecated e")
    case True
    with Cons.prems show ?thesis by (simp add: uploadEntry_def)
  next
    case False
    with Cons.prems obtain u us where ur: "URLs e = u # us"
      by (cases "URLs e") (auto simp: uploadEntry_def)
    from uploadEntry_result[OF False ur refl, of env g c s] obtain s1 new1 where
      r: "uploadEntry env g c e s = LBreak s1 \<or> uploadEntry env g c e s = LContinue s1"
      and t: "trace s1 = trace s @ Get u (Header c) # new1" "getURLs new1 = []"
      and k: "success s1 = success s + int (okPosts env (trace s) (Get u (Header c) # new1))"
      and b: "uploadEntry env g c e s = LBreak s1 \<longrightarrow> limit g \<le> success s1 \<and> success s1 = success s + 1"
      by blast
    from r show ?thesis
    proof
      assume br: "uploadEntry env g c e s = LBreak s1"
      with Cons.prems have "s' = s1" by simp
      with b br show ?thesis by simp
    next
      assume co: "uploadEntry env g c e s = LContinue s1"
      with Cons.prems have "uploadEntries env g c es s1 = Inr s'" by simp
      from Cons.IH[OF this] have
        i: "success s1 \<le> success s'"
           "length (getURLs (trace s')) < length (getURLs (trace s1)) + length (live es) \<longrightarrow>
              success s1 < success s'"
        by auto
      from k have m: "success s \<le> success s1" by simp
      from t have l: "length (getURLs (trace s1)) = length (getURLs (trace s)) + 1"
        by (simp add: getURLs_append)
      from i m l False show ?thesis by auto
    qed
  qed
qed

lemma uploadEntries_trace_mono:
  "uploadEntries env g c es s = Inr s' \<Longrightarrow> set (getURLs (trace s)) \<subseteq> set (getURLs (trace s'))"
  by (auto dest!: uploadEntries_Inr simp: getURLs_append)

lemma uploadEntries_first:
  assumes "uploadEntries env g c (e # es) s = Inr s'" and "\<not> Deprecated e"
  shows "hd (URLs e) \<in> set (getURLs (trace s'))"
proof -
  from assms obtain u us where ur: "URLs e = u # us"
    by (cases "URLs e") (auto simp: uploadEntry_def)
  from uploadEntry_result[OF assms(2) ur refl, of env g c s] obtain s1 new1 where
    r: "uploadEntry env g c e s = LBreak s1 \<or> uploadEntry env g c e s = LContinue s1"
    and t: "trace s1 = trace s @ Get u (Header c) # new1"
    by blast
  from t have u1: "u \<in> set (getURLs (trace s1))" by (simp add: getURLs_append)
  from r show ?thesis
  proof
    assume "uploadEntry env g c e s = LBreak s1"
    with assms(1) have "s' = s1" by simp
    with u1 ur show ?thesis by simp
  next
    assume "uploadEntry env g c e s = LContinue s1"
    with assms(1) have "uploadEntries env g c es s1 = Inr s'" by simp
    from uploadEntries_trace_mono[OF this] u1 ur show ?thesis by auto
  qed
qed

lemma uploadPackages_append:
  "uploadPackages env g c (ps1 @ ps2) tr =
     (case uploadPackages env g c ps1 tr of
        Inl x \<Rightarrow> Inl x
      | Inr tr1 \<Rightarrow> uploadPackages env g c ps2 tr1)"
  by (induction ps1 arbitrary: tr) (auto split: sum.splits)

lemma uploadPackages_attempts:
  "uploadPackages env g c ps tr = Inr tr' \<Longrightarrow>
     set (getURLs tr) \<subseteq> set (getURLs tr') \<and>
     (\<forall>p \<in> set ps. \<forall>e rest. snd p = e # rest \<and> \<not> Deprecated e \<longrightarrow>
        hd (URLs e) \<in> set (getURLs tr'))"
proof (induction ps arbitrary: tr)
  case Nil
  then show ?case by simp
next
  case (Cons p ps)
  let ?s0 = "\<lparr>appID = '''', success = 0, trace = tr\<rparr>"
  from Cons.prems obtain s1 where
    e: "uploadEntries env g c (snd p) ?s0 = Inr s1"
    and rest: "uploadPackages env g c ps (trace s1) = Inr tr'"
    by (auto split: sum.splits)
  from Cons.IH[OF rest] have
    i: "set (getURLs (trace s1)) \<subseteq> set (getURLs tr')"
       "\<forall>p \<in> set ps. \<forall>e rest. snd p = e # rest \<and> \<not> Deprecated e \<longrightarrow>
          hd (URLs e) \<in> set (getURLs tr')"
    by auto
  from uploadEntries_trace_mono[OF e] i(1) have m: "set (getURLs tr) \<subseteq> set (getURLs tr')"
    by auto
  have "hd (URLs x) \<in> set (getURLs tr')" if "snd p = x # xs" "\<not> Deprecated x" for x xs
    using uploadEntries_first[of env g c x xs ?s0 s1] e that i(1) by auto
  with m i(2) show ?case by auto
qed

lemma patchItem_patchLabels:
  "patchItem label item = Inr item1 \<Longrightarrow> item1 = patchLabels label item"
  by (cases "obj_labels item")
     (auto simp: patchItem_def patchLabels_def setLabels_Some setLabels_None split: if_splits)

lemma obj_name_patchLabels: "obj_name (patchLabels label x) = obj_name x"
  by (simp add: patchLabels_def split: option.splits)

lemma api_Update_apps:
  "api env (UpdateCall appGVR ob) k = (None, k1) \<Longrightarrow>
     apps k1 = map (\<lambda>x. if obj_name x = obj_name ob then x\<lparr>obj_labels := obj_labels ob\<rparr> else x) (apps k) \<and>
     versions k1 = versions k"
  by (auto simp: api_def put_objects_def objects_def split: option.splits)

lemma appLabelLoop_apps:
  assumes "appLabelLoop env label items k = (Returned None, k')"
    and "distinct (map obj_name (apps k))"
    and "set items \<subseteq> set (apps k)"
    and "distinct (map obj_name items)"
  shows "apps k' = map (\<lambda>x. if x \<in> set items then patchLabels label x else x) (apps k) \<and>
         versions k' = versions k"
  using assms
proof (induction items arbitrary: k)
  case Nil
  then show ?case by (simp add: map_idI)
next
  case (Cons item items)
  from Cons.prems(1) obtain item1 where p: "patchItem label item = Inr item1"
    by (cases "patchItem label item") auto
  then have i1: "item1 = patchLabels label item" by (rule patchItem_patchLabels)
  from Cons.prems(1) p obtain k1 where
    a: "api env (UpdateCall appGVR item1) k = (None, k1)"
    and run: "appLabelLoop env label items k1 = (Returned None, k')"
    by (auto split: prod.splits option.splits)
  let ?step = "\<lambda>x. if x = item then patchLabels label item else x"
  from Cons.prems(2) have inj: "inj_on obj_name (set (apps k))" by (simp add: distinct_map)
  from Cons.prems(3) have item_in: "item \<in> set (apps k)" by simp
  have same: "(if obj_name x = obj_name item1 then x\<lparr>obj_labels := obj_labels item1\<rparr> else x) = ?step x"
    if "x \<in> set (apps k)" for x
  proof (cases "x = item")
    case True
    then show ?thesis by (simp add: i1 patchLabels_def split: option.splits)
  next
    case False
    with inj that item_in have "obj_name x \<noteq> obj_name item" by (auto dest: inj_onD)
    with False show ?thesis by (simp add: i1 obj_name_patchLabels)
  qed
  from api_Update_apps[OF a] same have
    k1: "apps k1 = map ?step (apps k)" "versions k1 = versions k"
    by (auto intro: map_cong)
  have names: "map obj_name (apps k1) = map obj_name (apps k)"
    by (simp add: k1 obj_name_patchLabels)
  with Cons.prems(2) have d1: "distinct (map obj_name (apps k1))" by simp
  from Cons.prems(4) have notin: "obj_name item \<notin> obj_name ` set items" and d2: "distinct (map obj_name items)"
    by auto
  have sub: "set items \<subseteq> set (apps k1)"
  proof
    fix y assume y: "y \<in> set items"
    with notin have "y \<noteq> item" by auto
    moreover from y Cons.prems(3) have "y \<in> set (apps k)" by auto
    ultimately show "y \<in> set (apps k1)" by (auto simp: k1)
  qed
  from Cons.IH[OF run d1 sub d2] have
    ih: "apps k' = map (\<lambda>x. if x \<in> set items then patchLabels label x else x) (apps k1)"
        "versions k' = versions k1"
    by auto
  have pn: "patchLabels label item \<notin> set items"
    using notin by (auto simp: image_iff obj_name_patchLabels dest: sym)
  have "map (\<lambda>x. if x \<in> set items then patchLabels label x else x) (map ?step (apps k))
        = map (\<lambda>x. if x \<in> set (item # items) then patchLabels label x else x) (apps k)"
    using pn by (auto simp: comp_def)
  with ih k1 show ?case by simp
qed

lemma updateAppLabel_apps:
  assumes "distinct (map obj_name (apps k))"
    and "updateAppLabel env sel label k = (Returned None, k')"
  shows "apps k' = map (\<lambda>x. if matches sel x then patchLabels label x else x) (apps k) \<and>
         versions k' = versions k"
proof -
  obtain l k1 where l: "List_api env appGVR sel k = (l, k1)" by force
  from List_api_apps[OF l] have s: "apps k1 = apps k" "versions k1 = versions k" by auto
  show ?thesis
  proof (cases l)
    case (Inl e)
    with l assms(2) show ?thesis by (simp add: updateAppLabel_def)
  next
    case (Inr items)
    from List_api_Inr[OF l[unfolded Inr]] have it: "items = filter (matches sel) (apps k)"
      by (simp add: objects_def)
    from l Inr assms(2) have run: "appLabelLoop env label items k1 = (Returned None, k')"
      by (simp add: updateAppLabel_def)
    from assms(1) s have d: "distinct (map obj_name (apps k1))" by simp
    have sub: "set items \<subseteq> set (apps k1)" by (auto simp: it s)
    from assms(1) have d2: "distinct (map obj_name items)"
      by (simp add: it distinct_map_filter)
    from appLabelLoop_apps[OF run d sub d2] s have
      "apps k' = map (\<lambda>x. if x \<in> set items then patchLabels label x else x) (apps k)"
      "versions k' = versions k"
      by auto
    moreover have "map (\<lambda>x. if x \<in> set items then patchLabels label x else x) (apps k)
        = map (\<lambda>x. if matches sel x then patchLabels label x else x) (apps k)"
      by (rule map_cong) (auto simp: it)
    ultimately show ?thesis by simp
  qed
qed

section \<open>The properties\<close>

subsection \<open>The endpoint of an upload\<close>

text \<open>
  Claim C1: the first successful upload of a package is posted to the "create
  application" endpoint and every later one to the "add version" endpoint of the
  application the first one created. The source tests \<^verbatim>\<open>appID\<close> at line 198 and
  decodes the answer into \<^verbatim>\<open>response.AppName\<close>, but never assigns \<^verbatim>\<open>appID\<close>:
  with a limit of 2 and two versions that both upload, the second POST goes to the
  "create application" endpoint again.
\<close>

theorem second_upload_posts_to_create_endpoint:
  "postURLs (snd (uploadChart okNet (cfg 2) resty_New (IndexEntries [(''nginx'', nginxLive)]))) =
     [''http://ks/kapis/application.kubesphere.io/v2/apps'',
      ''http://ks/kapis/application.kubesphere.io/v2/apps'']"
  by (simp add: upl_simps)

subsection \<open>The Authorization header\<close>

text \<open>
  Claim C2: every request carries the header "Bearer" followed by the token of the
  flag, or of the token file when the flag is empty. The header is computed at line 64,
  before the flags are parsed and before the file is read, from the empty token: with
  the flag set to \<open>secret\<close>, and with no flag and the file holding \<open>from-file\<close>, both
  requests of the run carry "Bearer" and an empty token.
\<close>

theorem authorization_header_ignores_token:
  "authHeaders (sent (main world0
      \<lparr>flag_server = Some ''http://ks'', flag_repo = Some ''http://charts'',
       flag_token = Some ''secret'', flag_limit = None\<rparr>)) = [Some ''Bearer '', Some ''Bearer ''] \<and>
   authHeaders (sent (main world0
      \<lparr>flag_server = Some ''http://ks'', flag_repo = Some ''http://charts'',
       flag_token = None, flag_limit = None\<rparr>)) = [Some ''Bearer '', Some ''Bearer '']"
  by (simp add: main_def run_def world0_def upl_simps SetHeader_def SetTimeout_def
      reconcile_def orFatal_def k_simps)

subsection \<open>Deprecated entries\<close>

text \<open>
  Claim C3, amended: when the entries before the first deprecated one all have a URL,
  the loop over a package does what it does on those entries alone, so nothing from the
  first deprecated entry on is attempted. The entries it attempts (the GET requests it
  adds) are the first \<open>n\<close> of the entries before the first deprecated one, in index
  order: all of them when the success count stays below the limit; fewer only when an
  upload has raised the count to the limit or above; and as soon as the first \<open>m\<close> of
  them end with an upload that raises the count to the limit or above, the package ends
  as those \<open>m\<close> entries do and \<open>n\<close> is at most \<open>m\<close>.
\<close>

theorem stops_at_first_deprecated:
  assumes "\<forall>e \<in> set (live es). URLs e \<noteq> []"
  shows "uploadEntries env g c es s = uploadEntries env g c (live es) s \<and>
    (\<exists>s' n. uploadEntries env g c es s = Inr s' \<and> n \<le> length (live es) \<and>
       getURLs (trace s') = getURLs (trace s) @ map (\<lambda>e. hd (URLs e)) (take n (live es)) \<and>
       (success s' < limit g \<longrightarrow> n = length (live es)) \<and>
       (n < length (live es) \<longrightarrow> success s < success s' \<and> limit g \<le> success s') \<and>
       (\<forall>m s1. uploadEntries env g c (take m (live es)) s = Inr s1 \<and> success s < success s1 \<and>
           limit g \<le> success s1 \<longrightarrow> s' = s1 \<and> n \<le> m))"
proof -
  let ?L = "live es"
  let ?f = "\<lambda>e. hd (URLs e)"
  from uploadEntries_total[OF assms] obtain s' where r: "uploadEntries env g c es s = Inr s'"
    by blast
  have tw: "uploadEntries env g c es s = uploadEntries env g c ?L s"
    by (rule uploadEntries_takeWhile)
  from uploadEntries_Inr[OF r] obtain new n where
    a: "trace s' = trace s @ new" "n \<le> length ?L" "getURLs new = map ?f (take n ?L)"
       "success s' < limit g \<longrightarrow> n = length ?L"
    by blast
  from a have gu: "getURLs (trace s') = getURLs (trace s) @ map ?f (take n ?L)"
    by (simp add: getURLs_append)
  from gu a(2) have len: "length (getURLs (trace s')) = length (getURLs (trace s)) + n"
    by simp
  from uploadEntries_early[OF r] len have
    early: "n < length ?L \<longrightarrow> success s < success s'" by simp
  from a(4) have early2: "n < length ?L \<longrightarrow> limit g \<le> success s'" by auto
  have pre: "s' = s1 \<and> n \<le> m"
    if p: "uploadEntries env g c (take m ?L) s = Inr s1" "success s < success s1"
      "limit g \<le> success s1" for m s1
  proof -
    from uploadEntries_stops_at_limit[OF p, of "drop m ?L"] tw r have eq: "s' = s1"
      by simp
    from uploadEntries_Inr[OF p(1)] obtain new1 n1 where
      b: "trace s1 = trace s @ new1" "n1 \<le> length (live (take m ?L))"
         "getURLs new1 = map ?f (take n1 (live (take m ?L)))"
      by blast
    have "length (live (take m ?L)) \<le> m"
      using length_takeWhile_le[of "\<lambda>e. \<not> Deprecated e" "take m ?L"] by simp
    with b(2) have n1m: "n1 \<le> m" by simp
    from b have "length (getURLs (trace s1)) = length (getURLs (trace s)) + n1"
      by (simp add: getURLs_append)
    with len eq have "n = n1" by simp
    with n1m eq show ?thesis by simp
  qed
  show ?thesis
    apply (rule conjI[OF tw])
    apply (rule exI[of _ s'], rule exI[of _ n])
    using r a(2) gu a(4) early early2 pre by blast
qed

text \<open>
  With a limit of 5, both entries before the deprecated one are attempted, and the
  deprecated one is not. With a limit of 1 the first upload reaches the limit: the run
  on the first entry alone already ends so, and the package ends as that run does.
\<close>

theorem stops_at_first_deprecated_witness:
  "map URLs (live nginx3) = [[''u3''], [''u2'']] \<and>
   uploadEntries okNet (cfg 5) resty_New nginx3 pkg0 =
     uploadEntries okNet (cfg 5) resty_New (take 2 nginx3) pkg0 \<and>
   (case uploadEntries okNet (cfg 5) resty_New nginx3 pkg0 of
      Inr s \<Rightarrow> (getURLs (trace s), success s) | Inl p \<Rightarrow> ([], 0)) = ([''u3'', ''u2''], 2) \<and>
   uploadEntries okNet (cfg 1) resty_New nginx3 pkg0 =
     uploadEntries okNet (cfg 1) resty_New (take 1 nginx3) pkg0 \<and>
   (case uploadEntries okNet (cfg 1) resty_New (take 1 nginx3) pkg0 of
      Inr s \<Rightarrow> (getURLs (trace s), success s) | Inl p \<Rightarrow> ([], 0)) = ([''u3''], 1)"
proof -
  have h: "\<forall>e \<in> set (live nginx3). URLs e \<noteq> []"
    by (simp add: nginx3_def chart_def)
  have l: "live nginx3 = take 2 nginx3"
    by (simp add: nginx3_def chart_def)
  from stops_at_first_deprecated[OF h, of okNet "cfg 5" resty_New pkg0] l
  have five: "uploadEntries okNet (cfg 5) resty_New nginx3 pkg0 =
     uploadEntries okNet (cfg 5) resty_New (take 2 nginx3) pkg0" by simp
  obtain s1 where one: "uploadEntries okNet (cfg 1) resty_New (take 1 (live nginx3)) pkg0 = Inr s1"
    and v: "success pkg0 < success s1" "limit (cfg 1) \<le> success s1"
    by (simp add: upl_simps)
  from stops_at_first_deprecated[OF h, of okNet "cfg 1" resty_New pkg0] one v
  have "uploadEntries okNet (cfg 1) resty_New nginx3 pkg0 = Inr s1" by blast
  with one have first: "uploadEntries okNet (cfg 1) resty_New nginx3 pkg0 =
     uploadEntries okNet (cfg 1) resty_New (take 1 nginx3) pkg0"
    by (simp add: l)
  from five first show ?thesis by (simp add: upl_simps)
qed

text \<open>
  As first stated, every entry before the first deprecated one is attempted. With a
  limit of 1 the second entry, which is not deprecated and comes before the deprecated
  third, is never requested: the first upload reaches the limit.
\<close>

theorem entry_before_deprecated_not_attempted:
  "\<not> Deprecated (nginx3 ! 1) \<and> Deprecated (nginx3 ! 2) \<and> URLs (nginx3 ! 1) = [''u2''] \<and>
   (case uploadEntries okNet (cfg 1) resty_New nginx3 pkg0 of
      Inr s \<Rightarrow> getURLs (trace s) | Inl p \<Rightarrow> []) = [''u3'']"
  by (simp add: upl_simps)

subsection \<open>The limit\<close>

text \<open>
  Claim C4, amended: for a limit \<open>K\<close>, a package that is processed without a panic
  ends with at most \<open>max 1 K\<close> successes; the count is the number of its POST requests
  that were answered without an error, so failed entries do not count; and once the
  count has reached \<open>max 1 K\<close>, whatever entries follow are not attempted.
\<close>

theorem successes_bounded_by_limit:
  assumes "uploadEntries env g c es \<lparr>appID = a, success = 0, trace = tr\<rparr> = Inr s'"
  shows "success s' \<le> max 1 (limit g) \<and>
    (\<exists>new. trace s' = tr @ new \<and> success s' = int (okPosts env tr new)) \<and>
    (max 1 (limit g) \<le> success s' \<longrightarrow>
       (\<forall>rest. uploadEntries env g c (es @ rest) \<lparr>appID = a, success = 0, trace = tr\<rparr> = Inr s'))"
proof -
  from uploadEntries_Inr[OF assms] have
    "success s' \<le> max 1 (limit g)"
    "\<exists>new. trace s' = tr @ new \<and> success s' = int (okPosts env tr new)"
    by auto
  moreover have "max 1 (limit g) \<le> success s' \<longrightarrow>
       (\<forall>rest. uploadEntries env g c (es @ rest) \<lparr>appID = a, success = 0, trace = tr\<rparr> = Inr s')"
    using uploadEntries_stops_at_limit[OF assms] by auto
  ultimately show ?thesis by blast
qed

text \<open>
  With a limit of 2 and three versions that would all upload, two are uploaded and the
  third is not requested; three more entries after them change nothing.
\<close>

theorem successes_bounded_by_limit_witness:
  "(case uploadEntries okNet (cfg 2) resty_New nginxLive pkg0 of
      Inr s \<Rightarrow> (success s, getURLs (trace s), okPosts okNet [] (trace s)) | Inl p \<Rightarrow> (0, [], 0))
     = (2, [''u3'', ''u2''], 2) \<and>
   uploadEntries okNet (cfg 2) resty_New (nginxLive @ nginx3) pkg0 =
     uploadEntries okNet (cfg 2) resty_New nginxLive pkg0"
proof -
  obtain s' where r: "uploadEntries okNet (cfg 2) resty_New nginxLive \<lparr>appID = '''', success = 0, trace = []\<rparr> = Inr s'"
    and v: "success s' = 2" "getURLs (trace s') = [''u3'', ''u2'']" "okPosts okNet [] (trace s') = 2"
    by (simp add: upl_simps)
  from successes_bounded_by_limit[OF r] v have
    "uploadEntries okNet (cfg 2) resty_New (nginxLive @ nginx3) \<lparr>appID = '''', success = 0, trace = []\<rparr> = Inr s'"
    by (simp add: cfg_def)
  with r v show ?thesis by (simp add: pkg0_def)
qed

text \<open>
  As first stated, at most \<open>K\<close> uploads succeed for every limit \<open>K\<close>. The limit is
  tested after the count is incremented (lines 227-228), so with a limit of 0 one upload
  succeeds.
\<close>

theorem limit_zero_uploads_once:
  "limit (cfg 0) = 0 \<and>
   (case uploadEntries okNet (cfg 0) resty_New [chart ''1.0.0'' [''u1''] False] pkg0 of
      Inr s \<Rightarrow> (success s, okPosts okNet [] (trace s)) | Inl p \<Rightarrow> (0, 0)) = (1, 1)"
  by (simp add: upl_simps)

subsection \<open>Failures of single entries\<close>

text \<open>
  Claim C5, amended: a download or an upload that fails, by a transport error or by a
  response with a status above 399 (what \<^verbatim>\<open>IsError\<close> tests), does not end the
  loop: the loop goes on with the next entry of the package, with the count and the
  application identifier as they were. \<^verbatim>\<open>uploadChart\<close> never returns an error; when
  every entry before the first deprecated one of its package has a URL it returns nil;
  and when it returns nil, the first entry of every package, unless deprecated, has been
  requested, whatever failed in the packages before: the packages that follow are
  processed from the history the earlier ones left, and from nothing else of them.
\<close>

theorem entry_failures_absorbed:
  "(\<not> Deprecated e \<and> URLs e = u # us \<and> requestFailed (env (trace s @ [Get u (Header c)])) \<longrightarrow>
      uploadEntries env g c (e # es) s =
        uploadEntries env g c es (s\<lparr>trace := trace s @ [Get u (Header c)]\<rparr>)) \<and>
   (\<not> Deprecated e \<and> URLs e = u # us \<and> env (trace s @ [Get u (Header c)]) = Resp r \<and>
    \<not> IsError r \<and> url = (if appID s = '''' then createURL g else versionURL g (appID s)) \<and>
    requestFailed (env (trace s @ [Get u (Header c), Post url (Header c) (mkAppRequest (Body r))])) \<longrightarrow>
      uploadEntries env g c (e # es) s =
        uploadEntries env g c es
          (s\<lparr>trace := trace s @ [Get u (Header c), Post url (Header c) (mkAppRequest (Body r))]\<rparr>)) \<and>
   (\<forall>err. fst (uploadChart env g c ix) \<noteq> Returned (Some err)) \<and>
   ((\<forall>p \<in> set ps. \<forall>e \<in> set (live (snd p)). URLs e \<noteq> []) \<longrightarrow>
      (\<exists>tr. uploadChart env g c (IndexEntries ps) = (Returned None, tr))) \<and>
   (\<forall>tr. uploadChart env g c (IndexEntries ps) = (Returned None, tr) \<longrightarrow>
      (\<forall>p \<in> set ps. \<forall>e rest. snd p = e # rest \<and> \<not> Deprecated e \<longrightarrow>
         hd (URLs e) \<in> set (getURLs tr))) \<and>
   uploadPackages env g c (ps1 @ ps2) tr0 =
     (case uploadPackages env g c ps1 tr0 of
        Inl x \<Rightarrow> Inl x
      | Inr tr1 \<Rightarrow> uploadPackages env g c ps2 tr1)"
proof (intro conjI impI allI)
  show "uploadPackages env g c (ps1 @ ps2) tr0 =
     (case uploadPackages env g c ps1 tr0 of
        Inl x \<Rightarrow> Inl x
      | Inr tr1 \<Rightarrow> uploadPackages env g c ps2 tr1)"
    by (rule uploadPackages_append)
next
  assume "\<not> Deprecated e \<and> URLs e = u # us \<and> requestFailed (env (trace s @ [Get u (Header c)]))"
  then show "uploadEntries env g c (e # es) s =
        uploadEntries env g c es (s\<lparr>trace := trace s @ [Get u (Header c)]\<rparr>)"
    by (auto simp: uploadEntry_def requestFailed_def split: http_result.splits)
next
  assume "\<not> Deprecated e \<and> URLs e = u # us \<and> env (trace s @ [Get u (Header c)]) = Resp r \<and>
    \<not> IsError r \<and> url = (if appID s = '''' then createURL g else versionURL g (appID s)) \<and>
    requestFailed (env (trace s @ [Get u (Header c), Post url (Header c) (mkAppRequest (Body r))]))"
  then show "uploadEntries env g c (e # es) s =
        uploadEntries env g c es
          (s\<lparr>trace := trace s @ [Get u (Header c), Post url (Header c) (mkAppRequest (Body r))]\<rparr>)"
    by (auto simp: uploadEntry_def postEntry_def requestFailed_def split: http_result.splits)
next
  fix err
  show "fst (uploadChart env g c ix) \<noteq> Returned (Some err)"
    by (simp add: uploadChart_def split: index_fetch.splits sum.splits)
next
  assume "\<forall>p \<in> set ps. \<forall>e \<in> set (live (snd p)). URLs e \<noteq> []"
  from uploadPackages_total[OF this] obtain tr where "uploadPackages env g c ps [] = Inr tr"
    by blast
  then show "\<exists>tr. uploadChart env g c (IndexEntries ps) = (Returned None, tr)"
    by (simp add: uploadChart_def)
next
  fix tr
  assume "uploadChart env g c (IndexEntries ps) = (Returned None, tr)"
  then have "uploadPackages env g c ps [] = Inr tr"
    by (simp add: uploadChart_def split: sum.splits)
  from uploadPackages_attempts[OF this]
  show "\<forall>p \<in> set ps. \<forall>e rest. snd p = e # rest \<and> \<not> Deprecated e \<longrightarrow>
         hd (URLs e) \<in> set (getURLs tr)"
    by blast
qed

text \<open>
  The download of the first version times out and the upload of the second is
  answered with status 500: the third version is still downloaded and uploaded, the
  next package is processed after it, and \<^verbatim>\<open>uploadChart\<close> returns nil.
\<close>

theorem entry_failures_absorbed_witness:
  "fst (uploadChart flakyNet (cfg 1) resty_New
      (IndexEntries [(''nginx'', nginxLive), (''redis'', redis1)])) = Returned None \<and>
   getURLs (snd (uploadChart flakyNet (cfg 1) resty_New
      (IndexEntries [(''nginx'', nginxLive), (''redis'', redis1)])))
     = [''u3'', ''u2'', ''u1'', ''r7''] \<and>
   length (postURLs (snd (uploadChart flakyNet (cfg 1) resty_New
      (IndexEntries [(''nginx'', nginxLive), (''redis'', redis1)])))) = 3"
  using entry_failures_absorbed[of "chart ''3.0.0'' [''u3''] False" "''u3''" "[]" flakyNet pkg0 resty_New "cfg 1"
      "[chart ''2.0.0'' [''u2''] False, chart ''1.0.0'' [''u1''] False]"]
  by (simp add: upl_simps redis1_def)

text \<open>
  As first stated, a response outside 200-299 is a failure after which the loop goes on
  with the next entry. A response with status 304 is not an error for \<^verbatim>\<open>IsError\<close>:
  the download answered so is uploaded, the upload answered so is counted as a success,
  and with a limit of 1 the package ends there, the next entry not requested.
\<close>

theorem non_2xx_answer_treated_as_success:
  "notModifiedNet [Get ''u3'' Map.empty] = Resp \<lparr>StatusCode = 304, Body = ''''\<rparr> \<and>
   \<not> requestFailed (notModifiedNet [Get ''u3'' Map.empty]) \<and>
   (case uploadEntries notModifiedNet (cfg 1) resty_New nginxLive pkg0 of
      Inr s \<Rightarrow> (getURLs (trace s), postURLs (trace s), success s) | Inl p \<Rightarrow> ([], [], 0))
     = ([''u3''], [''http://ks/kapis/application.kubesphere.io/v2/apps''], 1)"
  by (simp add: upl_simps notModifiedNet_def requestFailed_def)

subsection \<open>Failures inside a stage\<close>

text \<open>
  Claim C6: in each of the three stages, a list call or an update that fails makes the
  stage return that error with no further call, and what was updated before stays
  updated: the calls of the stage stop at the first failure, whose error the stage
  returns, and the stored objects at the return are those its successful calls made.
\<close>

theorem stages_fail_fast:
  "stage_trace (fst (updateAppStatus env sel k)) k (snd (updateAppStatus env sel k)) \<and>
   stage_trace (fst (updateAppLabel env sel label k)) k (snd (updateAppLabel env sel label k)) \<and>
   stage_trace (fst (updateVersionStatus env sel k)) k (snd (updateVersionStatus env sel k))"
  unfolding updateAppStatus_def updateAppLabel_def updateVersionStatus_def
  by (intro conjI stage_from_List)
     (auto intro: appStatusLoop_trace appLabelLoop_trace versionAppsLoop_trace simp: prod_eq_iff)

text \<open>
  The status update of the second of two applications fails: the stage returns the
  error after three calls, and the first application stays active.
\<close>

theorem stages_fail_fast_witness:
  "fst (updateAppStatus (failAt 2) (categoryKey, mark) cluster2) = Returned (Some ''conflict'') \<and>
   map snd (calls (snd (updateAppStatus (failAt 2) (categoryKey, mark) cluster2)))
     = [None, None, Some ''conflict''] \<and>
   map (\<lambda>x. obj_status x ''state'') (apps (snd (updateAppStatus (failAt 2) (categoryKey, mark) cluster2)))
     = [Some ''active'', None]"
  using stages_fail_fast[of "failAt 2" "(categoryKey, mark)" cluster2]
  by (simp add: k_simps)

subsection \<open>The order of the stages\<close>

text \<open>
  Claim C7: with applications of distinct names, the stages run in the order
  app status, store label, version status, category label, each from the cluster the one
  before left and only when the one before returned nil; the first three leave the
  category label of every application as it was; when one of them returns an error the
  run ends there with the message of that stage, so a failure of the version status
  stage leaves the category label not rewritten.
\<close>

theorem reconcile_stage_order:
  assumes "distinct (map obj_name (apps k))"
  shows "\<exists>r1 k1 r2 k2 r3 k3.
      updateAppStatus env (categoryKey, mark) k = (r1, k1) \<and>
      updateAppLabel env (categoryKey, mark) storeLabel k1 = (r2, k2) \<and>
      updateVersionStatus env (categoryKey, mark) k2 = (r3, k3) \<and>
      cats k1 = cats k \<and> cats k2 = cats k \<and> cats k3 = cats k \<and>
      (\<forall>e. r1 = Returned (Some e) \<longrightarrow>
         reconcile env k = (Fatal (''[1/4] Failed to update app status: '' @ e), k1)) \<and>
      (r1 = Returned None \<longrightarrow>
         (\<forall>e. r2 = Returned (Some e) \<longrightarrow>
            reconcile env k = (Fatal (''[2/4] Failed to update app label: '' @ e), k2)) \<and>
         (r2 = Returned None \<longrightarrow>
            (\<forall>e. r3 = Returned (Some e) \<longrightarrow>
               reconcile env k = (Fatal (''[3/4] Failed to update version status: '' @ e), k3)) \<and>
            (r3 = Returned None \<longrightarrow>
               reconcile env k =
                 orFatal ''[4/4] Failed to update app category label: ''
                   (updateAppLabel env (categoryKey, mark) categoryLabel k3)
                   (\<lambda>k4. (Returned (), k4)))))"
proof -
  let ?sel = "(categoryKey, mark)"
  obtain r1 k1 where s1: "updateAppStatus env ?sel k = (r1, k1)" by force
  obtain r2 k2 where s2: "updateAppLabel env ?sel storeLabel k1 = (r2, k2)" by force
  obtain r3 k3 where s3: "updateVersionStatus env ?sel k2 = (r3, k3)" by force
  from updateAppStatus_cats[OF s1] have c1: "cats k1 = cats k" .
  have "map obj_name (apps k1) = map obj_name (apps k)"
    using c1 cats_names by metis
  with assms have d1: "distinct (map obj_name (apps k1))" by simp
  have nk: "categoryKey \<notin> fst ` set storeLabel"
    by (simp add: storeLabel_def categoryKey_def)
  from updateAppLabel_cats[OF d1 nk s2] c1 have c2: "cats k2 = cats k" by simp
  from updateVersionStatus_cats[OF s3] c2 have c3: "cats k3 = cats k" by simp
  show ?thesis
    apply (rule exI[of _ r1], rule exI[of _ k1], rule exI[of _ r2], rule exI[of _ k2],
        rule exI[of _ r3], rule exI[of _ k3])
    using s1 s2 s3 c1 c2 c3 by (simp add: reconcile_def orFatal_def)
qed

text \<open>
  Listing the versions of the first application fails, in the third stage: the run
  ends with the message of that stage after eight calls, and both applications still
  carry the sentinel category.
\<close>

theorem reconcile_stage_order_witness:
  "map obj_name (apps cluster2) = [''app1'', ''app2''] \<and>
   fst (reconcile (failAt 7) cluster2) = Fatal ''[3/4] Failed to update version status: conflict'' \<and>
   cats (snd (reconcile (failAt 7) cluster2)) = [(''app1'', Some mark), (''app2'', Some mark)] \<and>
   length (calls (snd (reconcile (failAt 7) cluster2))) = 8"
proof -
  have d: "distinct (map obj_name (apps cluster2))"
    by (simp add: cluster2_def app_def)
  from reconcile_stage_order[OF d, of "failAt 7"] show ?thesis
    by (simp add: reconcile_def orFatal_def k_simps cats_def category_def)
qed

subsection \<open>The label patch\<close>

text \<open>
  Claim C8: the patch is additive. For an application that has labels \<open>m\<close>, the object
  sent to \<^verbatim>\<open>Update\<close> has the labels of \<open>m\<close> overwritten by the entries of the
  patch: a key that is not in the patch keeps what it had in \<open>m\<close>, a key of the patch
  gets the value of the patch, and an update that succeeds stores these labels. When
  \<^verbatim>\<open>updateAppLabel\<close> returns nil over applications of distinct names, every
  application the selector matches is stored with its labels so patched, and every
  other application and every version is as it was.
\<close>

theorem label_patch_additive:
  "(obj_labels item = Some m \<longrightarrow>
      (\<exists>item1. patchItem label item = Inr item1 \<and> item1 = patchLabels label item \<and>
         obj_name item1 = obj_name item \<and> obj_status item1 = obj_status item \<and>
         obj_labels item1 = Some (m ++ map_of (rev label)) \<and>
         (\<forall>key. key \<notin> fst ` set label \<longrightarrow> (m ++ map_of (rev label)) key = m key) \<and>
         (distinct (map fst label) \<longrightarrow>
            (\<forall>kv \<in> set label. (m ++ map_of (rev label)) (fst kv) = Some (snd kv))) \<and>
         (\<forall>k0 k1. api env (UpdateCall appGVR item1) k0 = (None, k1) \<longrightarrow>
            (\<forall>x \<in> set (apps k1). obj_name x = obj_name item \<longrightarrow>
               obj_labels x = Some (m ++ map_of (rev label)))))) \<and>
   (distinct (map obj_name (apps k)) \<and> updateAppLabel env sel label k = (Returned None, k') \<longrightarrow>
      apps k' = map (\<lambda>x. if matches sel x then patchLabels label x else x) (apps k) \<and>
      versions k' = versions k)"
proof (intro conjI impI)
  assume lm: "obj_labels item = Some m"
  have "map_of (rev label) key = None" if "key \<notin> fst ` set label" for key
    using that by (simp add: map_of_eq_None_iff)
  then have a: "\<forall>key. key \<notin> fst ` set label \<longrightarrow> (m ++ map_of (rev label)) key = m key"
    by (simp add: map_add_def)
  have b: "distinct (map fst label) \<longrightarrow>
          (\<forall>kv \<in> set label. (m ++ map_of (rev label)) (fst kv) = Some (snd kv))"
  proof (intro impI ballI)
    fix kv
    assume "distinct (map fst label)" and kv: "kv \<in> set label"
    then have d: "distinct (map fst (rev label))"
      by (simp add: rev_map[symmetric])
    from kv have "(fst kv, snd kv) \<in> set (rev label)" by simp
    from map_of_is_SomeI[OF d this] show "(m ++ map_of (rev label)) (fst kv) = Some (snd kv)"
      by (simp add: map_add_def)
  qed
  have c: "\<forall>k0 k1. api env (UpdateCall appGVR (item\<lparr>obj_labels := Some (m ++ map_of (rev label))\<rparr>)) k0 = (None, k1) \<longrightarrow>
          (\<forall>x \<in> set (apps k1). obj_name x = obj_name item \<longrightarrow>
             obj_labels x = Some (m ++ map_of (rev label)))"
    by (auto simp: api_def put_objects_def objects_def split: option.splits)
  show "\<exists>item1. patchItem label item = Inr item1 \<and> item1 = patchLabels label item \<and>
         obj_name item1 = obj_name item \<and> obj_status item1 = obj_status item \<and>
         obj_labels item1 = Some (m ++ map_of (rev label)) \<and>
         (\<forall>key. key \<notin> fst ` set label \<longrightarrow> (m ++ map_of (rev label)) key = m key) \<and>
         (distinct (map fst label) \<longrightarrow>
            (\<forall>kv \<in> set label. (m ++ map_of (rev label)) (fst kv) = Some (snd kv))) \<and>
         (\<forall>k0 k1. api env (UpdateCall appGVR item1) k0 = (None, k1) \<longrightarrow>
            (\<forall>x \<in> set (apps k1). obj_name x = obj_name item \<longrightarrow>
               obj_labels x = Some (m ++ map_of (rev label))))"
    apply (rule exI[of _ "item\<lparr>obj_labels := Some (m ++ map_of (rev label))\<rparr>"])
    using a b c lm by (simp add: patchItem_Some[OF lm] patchLabels_def)
next
  assume h: "distinct (map obj_name (apps k)) \<and> updateAppLabel env sel label k = (Returned None, k')"
  then show "apps k' = map (\<lambda>x. if matches sel x then patchLabels label x else x) (apps k)"
    and "versions k' = versions k"
    using updateAppLabel_apps[of k env sel label k'] by auto
qed

text \<open>
  The patch \<open>a = 1\<close> on the applications labelled \<open>b = 2\<close>: the stage returns nil, the
  application so labelled is stored with both labels, and the other application, which
  the selector does not match, keeps its one label.
\<close>

theorem label_patch_additive_witness:
  "fst (updateAppLabel (failAt 9) (''b'', ''2'') [(''a'', ''1'')] clusterB) = Returned None \<and>
   map (\<lambda>x. (obj_name x, map_option (\<lambda>m. (m ''a'', m ''b'', m ''c'')) (obj_labels x)))
     (apps (snd (updateAppLabel (failAt 9) (''b'', ''2'') [(''a'', ''1'')] clusterB)))
     = [(''app1'', Some (Some ''1'', Some ''2'', None)), (''other'', Some (None, None, Some ''3''))] \<and>
   obj_labels (patchLabels [(''a'', ''1'')] (app ''app1'' (Some [''b'' \<mapsto> ''2''])))
     = Some [''a'' \<mapsto> ''1'', ''b'' \<mapsto> ''2'']"
proof -
  have d: "distinct (map obj_name (apps clusterB))"
    by (simp add: clusterB_def app_def)
  obtain k' where r: "updateAppLabel (failAt 9) (''b'', ''2'') [(''a'', ''1'')] clusterB = (Returned None, k')"
    by (simp add: k_simps clusterB_def)
  have e: "[''b'' \<mapsto> ''2''] ++ map_of (rev [(''a'', ''1'')]) = [''a'' \<mapsto> ''1'', ''b'' \<mapsto> ''2'']"
    by (auto simp: fun_eq_iff map_add_def)
  have pl: "obj_labels (patchLabels [(''a'', ''1'')] (app ''app1'' (Some [''b'' \<mapsto> ''2''])))
     = Some [''a'' \<mapsto> ''1'', ''b'' \<mapsto> ''2'']"
    unfolding patchLabels_def app_def by (simp only: e[symmetric]) simp
  from label_patch_additive[of "app ''app1'' (Some [''b'' \<mapsto> ''2''])" "[''b'' \<mapsto> ''2'']" "[(''a'', ''1'')]"
      "failAt 9" clusterB "(''b'', ''2'')" k'] d r
  have "apps k' = map (\<lambda>x. if matches (''b'', ''2'') x then patchLabels [(''a'', ''1'')] x else x)
      (apps clusterB)" by simp
  then have "map (\<lambda>x. (obj_name x, map_option (\<lambda>m. (m ''a'', m ''b'', m ''c'')) (obj_labels x))) (apps k')
     = [(''app1'', Some (Some ''1'', Some ''2'', None)), (''other'', Some (None, None, Some ''3''))]"
    by (simp add: clusterB_def app_def matches_def patchLabels_def)
  with r pl show ?thesis by simp
qed

subsection \<open>The first URL of an entry\<close>

text \<open>
  Claim C9: for an entry that is not deprecated the loop reads the first URL without
  a test. An entry without URLs makes the run panic with an index out of range; an
  entry with URLs is requested at its first one; the loop over a package returns when
  every entry before the first deprecated one has a URL, and it panics only by an
  entry among them that has none.
\<close>

theorem first_url_read_unconditionally:
  "(\<not> Deprecated e \<and> URLs e = [] \<longrightarrow>
      uploadEntries env g c (e # es) s = Inl (IndexOutOfRange, trace s)) \<and>
   (\<not> Deprecated e \<and> URLs e = u # us \<longrightarrow>
      (\<exists>s' new. (uploadEntry env g c e s = LBreak s' \<or> uploadEntry env g c e s = LContinue s') \<and>
         trace s' = trace s @ Get u (Header c) # new \<and> getURLs new = [])) \<and>
   ((\<forall>e \<in> set (live es). URLs e \<noteq> []) \<longrightarrow> (\<exists>s'. uploadEntries env g c es s = Inr s')) \<and>
   (\<forall>p. uploadEntries env g c es s = Inl p \<longrightarrow>
      fst p = IndexOutOfRange \<and> (\<exists>e \<in> set (live es). URLs e = []))"
proof (intro conjI impI allI)
  assume "\<not> Deprecated e \<and> URLs e = []"
  then show "uploadEntries env g c (e # es) s = Inl (IndexOutOfRange, trace s)"
    by (simp add: uploadEntry_def)
next
  assume a: "\<not> Deprecated e \<and> URLs e = u # us"
  from uploadEntry_result[of e u us env g c s, OF _ _ refl] a
  show "\<exists>s' new. (uploadEntry env g c e s = LBreak s' \<or> uploadEntry env g c e s = LContinue s') \<and>
         trace s' = trace s @ Get u (Header c) # new \<and> getURLs new = []"
    by blast
next
  assume "\<forall>e \<in> set (live es). URLs e \<noteq> []"
  then show "\<exists>s'. uploadEntries env g c es s = Inr s'" by (rule uploadEntries_total)
next
  fix p assume "uploadEntries env g c es s = Inl p"
  then show "fst p = IndexOutOfRange" "\<exists>e \<in> set (live es). URLs e = []"
    by (auto dest: uploadEntries_panics)
qed

text \<open>
  A package whose second entry has no URL: the first entry is downloaded and uploaded,
  then the run panics. Without that entry the loop returns.
\<close>

theorem first_url_read_unconditionally_witness:
  "fst (uploadChart okNet (cfg 5) resty_New
      (IndexEntries [(''nginx'', chart ''4.0.0'' [''u4''] False # chart ''3.5.0'' [] False # nginx3)]))
     = Panicked IndexOutOfRange \<and>
   getURLs (snd (uploadChart okNet (cfg 5) resty_New
      (IndexEntries [(''nginx'', chart ''4.0.0'' [''u4''] False # chart ''3.5.0'' [] False # nginx3)])))
     = [''u4''] \<and>
   (case uploadEntries okNet (cfg 1) resty_New nginx3 pkg0 of
      Inr s \<Rightarrow> getURLs (trace s) | Inl p \<Rightarrow> []) = [''u3'']"
  using first_url_read_unconditionally[of "chart ''3.5.0'' [] False" okNet "cfg 5" resty_New nginx3 pkg0]
  by (simp add: upl_simps)

subsection \<open>The nil label map\<close>

text \<open>
  Claim C10: the patch writes into the label map of the listed object as it is. The
  write panics exactly when the object has no label map and the patch is not empty, and
  the loop then panics at that object; over objects that all have labels the loop does
  not panic. Every object that a list call returns for a selector has labels, so
  \<^verbatim>\<open>updateAppLabel\<close> never panics.
\<close>

theorem label_patch_nil_map:
  "(patchItem label item = Inl p \<longleftrightarrow> obj_labels item = None \<and> label \<noteq> [] \<and> p = NilMapAssignment) \<and>
   (obj_labels item = None \<and> label \<noteq> [] \<longrightarrow>
      appLabelLoop env label (item # items) k = (Panicked NilMapAssignment, k)) \<and>
   ((\<forall>it \<in> set items. obj_labels it \<noteq> None) \<longrightarrow>
      fst (appLabelLoop env label items k) \<noteq> Panicked q) \<and>
   (\<forall>it \<in> set (filter (matches sel) (apps k)). obj_labels it \<noteq> None) \<and>
   fst (updateAppLabel env sel label k) \<noteq> Panicked q"
proof (intro conjI impI)
  show "patchItem label item = Inl p \<longleftrightarrow> obj_labels item = None \<and> label \<noteq> [] \<and> p = NilMapAssignment"
    by (rule patchItem_Inl)
next
  assume "obj_labels item = None \<and> label \<noteq> []"
  then have "patchItem label item = Inl NilMapAssignment" by (simp add: patchItem_Inl)
  then show "appLabelLoop env label (item # items) k = (Panicked NilMapAssignment, k)" by simp
next
  assume "\<forall>it \<in> set items. obj_labels it \<noteq> None"
  then show "fst (appLabelLoop env label items k) \<noteq> Panicked q" by (rule appLabelLoop_no_panic)
next
  show "\<forall>it \<in> set (filter (matches sel) (apps k)). obj_labels it \<noteq> None"
    by (auto simp: matches_def split: option.splits)
next
  show "fst (updateAppLabel env sel label k) \<noteq> Panicked q" by (rule updateAppLabel_no_panic)
qed

text \<open>
  The loop over an application without labels panics. In a cluster that holds such an
  application beside the two imported ones, the selector lists only those two and the
  stage returns nil.
\<close>

theorem label_patch_nil_map_witness:
  "appLabelLoop (failAt 9) storeLabel [app ''bare'' None] cluster2
     = (Panicked NilMapAssignment, cluster2) \<and>
   fst (updateAppLabel (failAt 9) (categoryKey, mark) storeLabel
          (cluster2\<lparr>apps := app ''bare'' None # apps cluster2\<rparr>)) = Returned None \<and>
   map obj_name (filter (matches (categoryKey, mark)) (app ''bare'' None # apps cluster2))
     = [''app1'', ''app2'']"
  using label_patch_nil_map[of storeLabel "app ''bare'' None" NilMapAssignment "failAt 9" "[]" cluster2]
  by (simp add: k_simps)

end
